theory Spec2Isabelle
  imports Main "HOL-Library.Extended_Nat" "HOL-Library.AList" "HOL-Library.Multiset"
    "HOL-Library.Sublist"
begin

section \<open>Strings\<close>

text \<open>
  A JavaScript string is a sequence of UTF-16 code units. The model covers the strings
  whose code units lie in 0..255 (the Latin-1 range): such a string is a \<open>string\<close>, one
  \<open>char\<close> for each code unit, and \<open>length\<close> is the \<open>length\<close> property.

  \<open>isSpace\<close> is the class \<^verbatim>\<open>\s\<close> of regular expressions, which is also what
  \<^verbatim>\<open>trim\<close> strips: tab, line feed, vertical tab, form feed, carriage return, space and
  the no-break space.
\<close>

definition isSpace :: "char \<Rightarrow> bool" where
  "isSpace c = ((of_char c :: nat) \<in> {9, 10, 11, 12, 13, 32, 160})"

text \<open>
  \<^verbatim>\<open>toLocaleLowerCase\<close> in a locale without special casing rules (neither Turkic nor
  Lithuanian): A..Z and the capital letters of Latin-1 (192..222 except the multiplication
  sign 215) move up by 32, every other code unit stays.
\<close>

definition lowerChar :: "char \<Rightarrow> char" where
  "lowerChar c =
     (let n = (of_char c :: nat)
      in if (65 \<le> n \<and> n \<le> 90) \<or> (192 \<le> n \<and> n \<le> 222 \<and> n \<noteq> 215)
         then char_of (n + 32) else c)"

definition toLocaleLowerCase :: "string \<Rightarrow> string" where
  "toLocaleLowerCase word = map lowerChar word"

definition trim :: "string \<Rightarrow> string" where
  "trim str = rev (dropWhile isSpace (rev (dropWhile isSpace str)))"

text \<open>
  \<^verbatim>\<open>str.split(/\s+/)\<close>: the pieces of \<open>str\<close> between the maximal runs of white space.
  The empty string gives one empty piece; a run at the start or at the end of the string
  gives an empty piece there.
\<close>

function split :: "string \<Rightarrow> string list" where
  "split [] = [[]]"
| "split (c # cs) =
     (if isSpace c then [] # split (dropWhile isSpace cs)
      else (let pieces = split cs in (c # hd pieces) # tl pieces))"
  by pat_completeness auto
termination
  by (relation "measure length") (auto simp: less_Suc_eq_le length_dropWhile_le)

section \<open>Sets and maps in insertion order\<close>

text \<open>
  A JavaScript \<^verbatim>\<open>Set\<close> iterates in insertion order and holds no element twice: a list
  that \<open>Set_add\<close> extends at the end. A \<^verbatim>\<open>Map\<close> is an association list: \<open>map_of\<close> is
  \<^verbatim>\<open>get\<close> (\<open>None\<close> for \<^verbatim>\<open>undefined\<close>), and \<^verbatim>\<open>set\<close> is \<open>AList.update\<close>, which
  replaces the value of a key that is present where it stands and appends a new key.
\<close>

definition Set_add :: "'a \<Rightarrow> 'a list \<Rightarrow> 'a list" where
  "Set_add x xs = (if x \<in> set xs then xs else xs @ [x])"

definition Set_has :: "'a list \<Rightarrow> 'a \<Rightarrow> bool" where
  "Set_has xs x = (x \<in> set xs)"

section \<open>The edit distance\<close>

text \<open>
  \<open>levenshtein\<close> is \<^verbatim>\<open>_levenshtein\<close>. The costs are natural numbers (the scorer
  calls the routine with the default cost 1 only). The numbers of the source are doubles,
  which hold every integer up to 2^53 exactly: the natural numbers of the model are what
  the routine computes as long as none of them is above 2^53, as it is with the costs 1,
  where no number is above the sum of the two lengths. The rows \<^verbatim>\<open>p1\<close> and \<^verbatim>\<open>p2\<close> are lists
  of length \<open>l2 + 1\<close>; \<^verbatim>\<open>new Array(l2 + 1)\<close> is modelled as a row of zeros, every
  slot of which is written before it is read. The two counted loops are folds over
  their index ranges.
\<close>

definition levInner ::
  "nat \<Rightarrow> nat \<Rightarrow> nat \<Rightarrow> char \<Rightarrow> string \<Rightarrow> nat list \<Rightarrow> nat \<Rightarrow> nat list \<Rightarrow> nat list" where
  "levInner costIns costRep costDel ch1 word2 p1 i2 p2 =
     (let c0 = p1 ! i2 + (if ch1 = word2 ! i2 then 0 else costRep);
          c1 = p1 ! (i2 + 1) + costDel;
          c0 = (if c1 < c0 then c1 else c0);
          c2 = p2 ! i2 + costIns;
          c0 = (if c2 < c0 then c2 else c0)
      in p2[i2 + 1 := c0])"

definition levOuter ::
  "nat \<Rightarrow> nat \<Rightarrow> nat \<Rightarrow> string \<Rightarrow> string \<Rightarrow> nat \<Rightarrow> nat list \<times> nat list \<Rightarrow> nat list \<times> nat list" where
  "levOuter costIns costRep costDel word1 word2 i1 rows =
     (let p1 = fst rows; p2 = snd rows;
          p2 = p2[0 := p1 ! 0 + costDel];
          p2 = fold (levInner costIns costRep costDel (word1 ! i1) word2 p1) [0..<length word2] p2
      in (p2, p1))"

definition levenshtein :: "string \<Rightarrow> string \<Rightarrow> nat \<Rightarrow> nat \<Rightarrow> nat \<Rightarrow> nat" where
  "levenshtein word1 word2 costIns costRep costDel =
     (if word1 = word2 then 0
      else let l1 = length word1; l2 = length word2
        in if l1 = 0 then l2 * costIns
           else if l2 = 0 then l1 * costDel
           else let p1 = map (\<lambda>i2. i2 * costIns) [0..<l2 + 1];
                    p2 = replicate (l2 + 1) 0;
                    rows = fold (levOuter costIns costRep costDel word1 word2) [0..<l1] (p1, p2)
                in fst rows ! l2)"

text \<open>
  The distance the rows compute, as a recursion on the two words read from their ends:
  \<open>editDistance ci cr cd (rev u) (rev v)\<close> is the cheapest way from \<open>u\<close> to \<open>v\<close>.
\<close>

fun editDistance :: "nat \<Rightarrow> nat \<Rightarrow> nat \<Rightarrow> string \<Rightarrow> string \<Rightarrow> nat" where
  "editDistance ci cr cd [] ys = length ys * ci"
| "editDistance ci cr cd (x # xs) [] = length (x # xs) * cd"
| "editDistance ci cr cd (x # xs) (y # ys) =
     min (min (editDistance ci cr cd xs ys + (if x = y then 0 else cr))
              (editDistance ci cr cd xs (y # ys) + cd))
         (editDistance ci cr cd (x # xs) ys + ci)"

section \<open>Documents and the scorer\<close>

text \<open>
  A document is an object that the caller owns and the scorer holds by reference, so the
  objects live in a heap and a reference is an address. Two documents are the same element
  of a \<^verbatim>\<open>Set\<close> exactly when they are the same object. The field \<^verbatim>\<open>id\<close> is
  \<open>doc_id\<close> here.
\<close>

type_synonym ref = nat

record document =
  doc_id :: string
  words :: "string list"

type_synonym heap = "ref \<Rightarrow> document"

record QueryScorer =
  distanceThreshold :: int
  stopWords :: "string list"
  stopWordPrefixes :: "string list"
  documents :: "ref list"
  documentsByWord :: "(string \<times> ref list) list"
  documentsByPrefix :: "(string \<times> ref list) list"

definition set_distanceThreshold :: "int \<Rightarrow> QueryScorer \<Rightarrow> QueryScorer" where
  "set_distanceThreshold v s = s\<lparr>distanceThreshold := v\<rparr>"

definition set_stopWords :: "string list \<Rightarrow> QueryScorer \<Rightarrow> QueryScorer" where
  "set_stopWords array s =
     (let stopWords' = fold Set_add (map toLocaleLowerCase array) [];
          stopWordPrefixes' =
            fold (\<lambda>word prefixes. fold (\<lambda>i. Set_add (take i word)) [1..<length word + 1] prefixes)
              stopWords' []
      in s\<lparr>stopWords := stopWords', stopWordPrefixes := stopWordPrefixes'\<rparr>)"

text \<open>The constructor: both setters run, then the corpus and its two indexes are empty.\<close>

definition new_QueryScorer :: "int \<Rightarrow> string list \<Rightarrow> QueryScorer" where
  "new_QueryScorer threshold array =
     set_stopWords array (set_distanceThreshold threshold
       \<lparr>distanceThreshold = 1, stopWords = [], stopWordPrefixes = [],
        documents = [], documentsByWord = [], documentsByPrefix = []\<rparr>)"

text \<open>
  \<open>indexPrefix\<close> is the body of the loop over the prefix lengths of a word, and
  \<open>indexWord\<close> the body of the loop over the words of a document.
\<close>

definition indexPrefix ::
  "ref \<Rightarrow> string \<Rightarrow> nat \<Rightarrow> (string \<times> ref list) list \<Rightarrow> (string \<times> ref list) list" where
  "indexPrefix doc word i byPrefix =
     (let prefix = take i word;
          docs = (case map_of byPrefix prefix of Some ds \<Rightarrow> ds | None \<Rightarrow> [])
      in AList.update prefix (Set_add doc docs) byPrefix)"

definition indexWord :: "ref \<Rightarrow> string \<Rightarrow> QueryScorer \<Rightarrow> QueryScorer" where
  "indexWord doc word s =
     (let docs = (case map_of (documentsByWord s) word of Some ds \<Rightarrow> ds | None \<Rightarrow> []);
          byWord = AList.update word (Set_add doc docs) (documentsByWord s);
          byPrefix = fold (indexPrefix doc word) [1..<length word + 1] (documentsByPrefix s)
      in s\<lparr>documentsByWord := byWord, documentsByPrefix := byPrefix\<rparr>)"

text \<open>
  \<open>addDocument\<close> takes the reference to the caller's document, and returns the heap with
  the scorer: the assignment to \<^verbatim>\<open>doc.words\<close> writes to the caller's object.
  \<^verbatim>\<open>map\<close> builds a new array and leaves the old one alone; the field \<open>words\<close> holds
  the contents of the array that the document refers to.
\<close>

definition addDocument :: "ref \<Rightarrow> heap \<times> QueryScorer \<Rightarrow> heap \<times> QueryScorer" where
  "addDocument doc st =
     (let h = fst st; s = snd st;
          s = s\<lparr>documents := Set_add doc (documents s)\<rparr>;
          lowered = map toLocaleLowerCase (words (h doc));
          h = h(doc := (h doc)\<lparr>words := lowered\<rparr>)
      in (h, fold (indexWord doc) lowered s))"

section \<open>Scoring\<close>

text \<open>
  A score is a natural number or \<^verbatim>\<open>Infinity\<close>: an \<open>enat\<close>. The fields of a result
  are \<open>result_document\<close> and \<open>result_score\<close>.
\<close>

record result =
  result_document :: ref
  result_score :: enat

definition skipWord :: "QueryScorer \<Rightarrow> nat \<Rightarrow> string \<Rightarrow> bool" where
  "skipWord s i searchWord =
     ((i = 0 \<and> Set_has (stopWords s) searchWord)
      \<or> (i > 0 \<and> Set_has (stopWordPrefixes s) searchWord))"

definition trackMin :: "enat \<Rightarrow> ref \<Rightarrow> (ref \<times> enat) list \<Rightarrow> (ref \<times> enat) list" where
  "trackMin distance doc minDistanceByDoc =
     AList.update doc
       (min distance (case map_of minDistanceByDoc doc of Some d \<Rightarrow> d | None \<Rightarrow> \<infinity>))
       minDistanceByDoc"

definition scanEntry ::
  "QueryScorer \<Rightarrow> string \<Rightarrow> string \<times> ref list \<Rightarrow> (ref \<times> enat) list \<Rightarrow> (ref \<times> enat) list" where
  "scanEntry s searchWord entry minDistanceByDoc =
     (let docWord = fst entry; docs = snd entry;
          distance = levenshtein searchWord docWord 1 1 1;
          distance = (if int distance > distanceThreshold s then \<infinity> else enat distance)
      in fold (trackMin distance) docs minDistanceByDoc)"

definition minDistances :: "QueryScorer \<Rightarrow> nat \<Rightarrow> string \<Rightarrow> (ref \<times> enat) list" where
  "minDistances s i searchWord =
     fold (scanEntry s searchWord) (if i = 0 then documentsByWord s else documentsByPrefix s) []"

text \<open>
  \<^verbatim>\<open>sumByDoc.get(doc) || 0\<close> is 0 when the document has no sum yet and when its sum
  is 0, and the sum otherwise.
\<close>

definition addMin :: "ref \<times> enat \<Rightarrow> (ref \<times> enat) list \<Rightarrow> (ref \<times> enat) list" where
  "addMin entry sumByDoc =
     (let doc = fst entry; m = snd entry
      in AList.update doc
           (m + (case map_of sumByDoc doc of None \<Rightarrow> 0
                 | Some summed \<Rightarrow> if summed = 0 then 0 else summed))
           sumByDoc)"

fun scoreWords ::
  "QueryScorer \<Rightarrow> nat \<Rightarrow> string list \<Rightarrow> (ref \<times> enat) list \<Rightarrow> (ref \<times> enat) list" where
  "scoreWords s i [] sumByDoc = sumByDoc"
| "scoreWords s i (searchWord # rest) sumByDoc =
     (if skipWord s i searchWord then scoreWords s (i + 1) rest sumByDoc
      else scoreWords s (i + 1) rest (fold addMin (minDistances s i searchWord) sumByDoc))"

definition searchWords :: "string \<Rightarrow> string list" where
  "searchWords searchString = map toLocaleLowerCase (split (trim searchString))"

definition sumByDoc :: "QueryScorer \<Rightarrow> string \<Rightarrow> (ref \<times> enat) list" where
  "sumByDoc s searchString = scoreWords s 0 (searchWords searchString) []"

text \<open>
  \<open>compareFn\<close> is the sign of the comparison function \<^verbatim>\<open>a.score - b.score\<close>, which is
  all that \<^verbatim>\<open>sort\<close> reads of it. On two infinite scores the difference is \<^verbatim>\<open>NaN\<close>,
  which \<^verbatim>\<open>sort\<close> reads as zero. \<^verbatim>\<open>sort\<close> is stable, and the comparison function is
  consistent, so the sorted array is determined: \<open>sortResults\<close> computes it by inserting
  the elements, from the last one to the first one, each before the first element that
  is not to stand before it.
\<close>

definition compareFn :: "result \<Rightarrow> result \<Rightarrow> int" where
  "compareFn a b =
     (if result_score a = \<infinity> \<and> result_score b = \<infinity> then 0
      else if result_score a < result_score b then - 1
      else if result_score b < result_score a then 1
      else 0)"

fun insertResult :: "result \<Rightarrow> result list \<Rightarrow> result list" where
  "insertResult r [] = [r]"
| "insertResult r (x # xs) =
     (if compareFn r x > 0 then x # insertResult r xs else r # x # xs)"

definition sortResults :: "result list \<Rightarrow> result list" where
  "sortResults results = foldr insertResult results []"

definition score :: "QueryScorer \<Rightarrow> string \<Rightarrow> result list" where
  "score s searchString =
     (let sumMap = sumByDoc s searchString;
          results = map (\<lambda>doc. \<lparr>result_document = doc,
                                 result_score = (case map_of sumMap doc of None \<Rightarrow> \<infinity>
                                                 | Some summed \<Rightarrow> summed)\<rparr>) (documents s)
      in sortResults results)"

text \<open>
  The usage the class documents: construct the scorer, then add the documents of the
  corpus one after the other.
\<close>

definition buildScorer :: "int \<Rightarrow> string list \<Rightarrow> ref list \<Rightarrow> heap \<Rightarrow> heap \<times> QueryScorer" where
  "buildScorer threshold array docs h = fold addDocument docs (h, new_QueryScorer threshold array)"

section \<open>Notions used in the statements\<close>

text \<open>
  The cell in row \<open>i1\<close> and column \<open>i2\<close> of the table whose rows \<^verbatim>\<open>p1\<close> and \<^verbatim>\<open>p2\<close> hold:
  the distance from the first \<open>i1\<close> characters of \<open>word1\<close> to the first \<open>i2\<close> of \<open>word2\<close>.
\<close>

definition levCell :: "nat \<Rightarrow> nat \<Rightarrow> nat \<Rightarrow> string \<Rightarrow> string \<Rightarrow> nat \<Rightarrow> nat \<Rightarrow> nat" where
  "levCell ci cr cd word1 word2 i1 i2 =
     editDistance ci cr cd (rev (take i1 word1)) (rev (take i2 word2))"

text \<open>
  \<open>bucket idx k\<close> is the set of documents that the index \<open>idx\<close> holds under the key
  \<open>k\<close>, empty when the key is absent. \<open>prefixesOf word\<close> is the set of the prefixes of a
  word of length 1 up to the whole word.
\<close>

definition bucket :: "('k \<times> 'a list) list \<Rightarrow> 'k \<Rightarrow> 'a set" where
  "bucket idx k = (case map_of idx k of None \<Rightarrow> {} | Some ds \<Rightarrow> set ds)"

definition prefixesOf :: "string \<Rightarrow> string set" where
  "prefixesOf word = (\<lambda>i. take i word) ` {1..length word}"

text \<open>
  The invariant that \<open>addDocument\<close> keeps: the corpus is the set \<open>D\<close> of the documents
  added so far, without repetition; no key stands twice in an index; each index holds
  under a key exactly the documents with that keyword (or with a keyword of that prefix);
  and the keywords of the documents added are in lower case.
\<close>

definition indexed :: "heap \<Rightarrow> QueryScorer \<Rightarrow> ref set \<Rightarrow> bool" where
  "indexed h s D \<longleftrightarrow>
     set (documents s) = D \<and> distinct (documents s)
     \<and> distinct (map fst (documentsByWord s)) \<and> distinct (map fst (documentsByPrefix s))
     \<and> (\<forall>k. bucket (documentsByWord s) k = {d \<in> D. k \<in> set (words (h d))})
     \<and> (\<forall>p. bucket (documentsByPrefix s) p = {d \<in> D. \<exists>w\<in>set (words (h d)). p \<in> prefixesOf w})
     \<and> fst ` set (documentsByWord s) = (\<Union>d\<in>D. set (words (h d)))
     \<and> fst ` set (documentsByPrefix s) = (\<Union>d\<in>D. \<Union>w\<in>set (words (h d)). prefixesOf w)
     \<and> (\<forall>d\<in>D. map toLocaleLowerCase (words (h d)) = words (h d))"

text \<open>The heap after the documents \<open>docs\<close> were added: their keywords are in lower case.\<close>

definition loweredHeap :: "heap \<Rightarrow> ref list \<Rightarrow> heap" where
  "loweredHeap h docs =
     (\<lambda>d. if d \<in> set docs then (h d)\<lparr>words := map toLocaleLowerCase (words (h d))\<rparr> else h d)"

text \<open>
  The distance of a query word from a key as the scan of an index uses it: the edit
  distance, or \<^verbatim>\<open>Infinity\<close> when the edit distance is above the threshold.
  \<open>keyDistances\<close> lists these distances for the entries whose set holds the document
  \<open>d\<close>, \<open>orInfinity\<close> reads a minimum that may be absent, and \<open>finalScore\<close> is the score
  of a result.
\<close>

definition thresholdDistance :: "QueryScorer \<Rightarrow> string \<Rightarrow> string \<Rightarrow> enat" where
  "thresholdDistance s searchWord docWord =
     (if int (levenshtein searchWord docWord 1 1 1) > distanceThreshold s then \<infinity>
      else enat (levenshtein searchWord docWord 1 1 1))"

definition keyDistances ::
  "QueryScorer \<Rightarrow> string \<Rightarrow> (string \<times> ref list) list \<Rightarrow> ref \<Rightarrow> enat list" where
  "keyDistances s searchWord idx d =
     map (\<lambda>entry. thresholdDistance s searchWord (fst entry))
       (filter (\<lambda>entry. d \<in> set (snd entry)) idx)"

definition orInfinity :: "enat option \<Rightarrow> enat" where
  "orInfinity v = (case v of Some d \<Rightarrow> d | None \<Rightarrow> \<infinity>)"

definition finalScore :: "(ref \<times> enat) list \<Rightarrow> ref \<Rightarrow> enat" where
  "finalScore sumMap doc = (case map_of sumMap doc of None \<Rightarrow> \<infinity> | Some summed \<Rightarrow> summed)"

text \<open>
  A small corpus for the concrete instances: three documents with keywords and, at every
  other address, a document without keywords.
\<close>

definition sampleDocuments :: heap where
  "sampleDocuments =
     (\<lambda>_. \<lparr>doc_id = [], words = []\<rparr>)
       (0 := \<lparr>doc_id = ''fruits'', words = [''Pear'', ''fig'']\<rparr>,
        1 := \<lparr>doc_id = ''pets'', words = [''cat'']\<rparr>,
        3 := \<lparr>doc_id = ''sweets'', words = [''ice cream'']\<rparr>)"

definition sampleScorer :: QueryScorer where
  "sampleScorer = snd (buildScorer 1 [''The''] [0, 1, 2] sampleDocuments)"

section \<open>The scorer as objects in a store\<close>

text \<open>
  The functions above pass the scorer by value. In the program the scorer, its two sets of
  stop words, the set of documents, the two indexes, every set of documents that an index
  holds, every document and every array of words is an object, and a method can write to
  any object it can reach. The second embedding keeps the objects in a store: an address
  is a position in the store, \<^verbatim>\<open>new\<close> appends an object, and a method call is a
  function from the store to a result with the store after the call. A method applied to an
  object of the wrong kind raises the \<open>TypeError\<close> of the runtime, as does a read of a
  property of \<^verbatim>\<open>null\<close> or \<^verbatim>\<open>undefined\<close>. \<open>InvalidArgument\<close> is the error of the
  specification's taxonomy; no statement of the source raises it.

  A value is a primitive value or a reference to an object. The object kinds are the ones
  the program builds: a \<^verbatim>\<open>Set\<close> of strings, a \<^verbatim>\<open>Set\<close> of documents, a \<^verbatim>\<open>Map\<close> from
  strings to sets of documents (an index), a \<^verbatim>\<open>Map\<close> from documents to numbers, the
  array of results, an array of values, a document with its fields \<^verbatim>\<open>id\<close> and
  \<^verbatim>\<open>words\<close>, and the scorer with its fields.
\<close>

type_synonym addr = nat

datatype js_value =
  JUndefined | JNull | JBoolean bool | JNumber int | JString string | JObject addr

datatype js_error = TypeError | InvalidArgument

record scorer_fields =
  f_distanceThreshold :: int
  f_stopWords :: addr
  f_stopWordPrefixes :: addr
  f_documents :: addr
  f_documentsByWord :: addr
  f_documentsByPrefix :: addr

datatype js_object =
    OStringSet "string list"
  | ODocSet "addr list"
  | OIndex "(string \<times> addr) list"
  | ONumberMap "(addr \<times> enat) list"
  | OResults "result list"
  | OArray "js_value list"
  | ODocument js_value js_value
  | OScorer scorer_fields

type_synonym store = "js_object list"

type_synonym 'a js = "store \<Rightarrow> (js_error + 'a) \<times> store"

text \<open>The calls in sequence: an error ends the sequence, with the store as it is then.\<close>

definition returnJ :: "'a \<Rightarrow> 'a js" where
  "returnJ x \<sigma> = (Inr x, \<sigma>)"

definition raiseJ :: "js_error \<Rightarrow> 'a js" where
  "raiseJ e \<sigma> = (Inl e, \<sigma>)"

definition bindJ :: "'a js \<Rightarrow> ('a \<Rightarrow> 'b js) \<Rightarrow> 'b js" where
  "bindJ m f \<sigma> =
     (case m \<sigma> of (Inl e, \<sigma>') \<Rightarrow> (Inl e, \<sigma>') | (Inr x, \<sigma>') \<Rightarrow> f x \<sigma>')"

fun forOf :: "'a list \<Rightarrow> ('a \<Rightarrow> unit js) \<Rightarrow> unit js" where
  "forOf [] body = returnJ ()"
| "forOf (x # xs) body = bindJ (body x) (\<lambda>_. forOf xs body)"

text \<open>Reading, allocating and writing objects, and the methods of the built-in objects.\<close>

definition lookup :: "store \<Rightarrow> addr \<Rightarrow> js_object option" where
  "lookup \<sigma> a = (if a < length \<sigma> then Some (\<sigma> ! a) else None)"

definition alloc :: "js_object \<Rightarrow> addr js" where
  "alloc obj \<sigma> = (Inr (length \<sigma>), \<sigma> @ [obj])"

definition store_put :: "addr \<Rightarrow> js_object \<Rightarrow> unit js" where
  "store_put a obj \<sigma> = (Inr (), \<sigma>[a := obj])"

definition getStringSet :: "addr \<Rightarrow> string list js" where
  "getStringSet a \<sigma> =
     (case lookup \<sigma> a of Some (OStringSet xs) \<Rightarrow> (Inr xs, \<sigma>) | _ \<Rightarrow> (Inl TypeError, \<sigma>))"

definition getDocSet :: "addr \<Rightarrow> addr list js" where
  "getDocSet a \<sigma> =
     (case lookup \<sigma> a of Some (ODocSet xs) \<Rightarrow> (Inr xs, \<sigma>) | _ \<Rightarrow> (Inl TypeError, \<sigma>))"

definition getIndex :: "addr \<Rightarrow> (string \<times> addr) list js" where
  "getIndex a \<sigma> =
     (case lookup \<sigma> a of Some (OIndex m) \<Rightarrow> (Inr m, \<sigma>) | _ \<Rightarrow> (Inl TypeError, \<sigma>))"

definition getNumberMap :: "addr \<Rightarrow> (addr \<times> enat) list js" where
  "getNumberMap a \<sigma> =
     (case lookup \<sigma> a of Some (ONumberMap m) \<Rightarrow> (Inr m, \<sigma>) | _ \<Rightarrow> (Inl TypeError, \<sigma>))"

definition getResults :: "addr \<Rightarrow> result list js" where
  "getResults a \<sigma> =
     (case lookup \<sigma> a of Some (OResults rs) \<Rightarrow> (Inr rs, \<sigma>) | _ \<Rightarrow> (Inl TypeError, \<sigma>))"

definition getScorer :: "addr \<Rightarrow> scorer_fields js" where
  "getScorer a \<sigma> =
     (case lookup \<sigma> a of Some (OScorer f) \<Rightarrow> (Inr f, \<sigma>) | _ \<Rightarrow> (Inl TypeError, \<sigma>))"

definition stringSet_has :: "addr \<Rightarrow> string \<Rightarrow> bool js" where
  "stringSet_has a x = bindJ (getStringSet a) (\<lambda>xs. returnJ (Set_has xs x))"

definition numberMap_get :: "addr \<Rightarrow> addr \<Rightarrow> enat option js" where
  "numberMap_get a k = bindJ (getNumberMap a) (\<lambda>m. returnJ (map_of m k))"

definition numberMap_set :: "addr \<Rightarrow> addr \<Rightarrow> enat \<Rightarrow> unit js" where
  "numberMap_set a k v =
     bindJ (getNumberMap a) (\<lambda>m. store_put a (ONumberMap (AList.update k v m)))"

definition results_push :: "addr \<Rightarrow> result \<Rightarrow> unit js" where
  "results_push a r = bindJ (getResults a) (\<lambda>rs. store_put a (OResults (rs @ [r])))"

definition results_sort :: "addr \<Rightarrow> unit js" where
  "results_sort a = bindJ (getResults a) (\<lambda>rs. store_put a (OResults (sortResults rs)))"

definition getDocument :: "addr \<Rightarrow> (js_value \<times> js_value) js" where
  "getDocument a \<sigma> =
     (case lookup \<sigma> a of Some (ODocument docId ws) \<Rightarrow> (Inr (docId, ws), \<sigma>)
      | _ \<Rightarrow> (Inl TypeError, \<sigma>))"

definition getArray :: "js_value \<Rightarrow> js_value list js" where
  "getArray v \<sigma> =
     (case v of
        JObject a \<Rightarrow> (case lookup \<sigma> a of Some (OArray vs) \<Rightarrow> (Inr vs, \<sigma>)
                      | _ \<Rightarrow> (Inl TypeError, \<sigma>))
      | _ \<Rightarrow> (Inl TypeError, \<sigma>))"

fun lowerWords :: "js_value list \<Rightarrow> string list js" where
  "lowerWords [] = returnJ []"
| "lowerWords (v # vs) =
     (case v of
        JString word \<Rightarrow> bindJ (lowerWords vs) (\<lambda>rest. returnJ (toLocaleLowerCase word # rest))
      | _ \<Rightarrow> raiseJ TypeError)"

definition stringSet_add :: "addr \<Rightarrow> string \<Rightarrow> unit js" where
  "stringSet_add a x = bindJ (getStringSet a) (\<lambda>xs. store_put a (OStringSet (Set_add x xs)))"

definition docSet_add :: "addr \<Rightarrow> addr \<Rightarrow> unit js" where
  "docSet_add a doc = bindJ (getDocSet a) (\<lambda>xs. store_put a (ODocSet (Set_add doc xs)))"

definition index_get :: "addr \<Rightarrow> string \<Rightarrow> addr option js" where
  "index_get a k = bindJ (getIndex a) (\<lambda>m. returnJ (map_of m k))"

definition index_set :: "addr \<Rightarrow> string \<Rightarrow> addr \<Rightarrow> unit js" where
  "index_set a k v = bindJ (getIndex a) (\<lambda>m. store_put a (OIndex (AList.update k v m)))"

text \<open>
  \<^verbatim>\<open>searchString.trim()\<close> is the first call of \<open>score\<close>: only a string has the
  method.
\<close>

definition js_trim :: "js_value \<Rightarrow> string js" where
  "js_trim v = (case v of JString str \<Rightarrow> returnJ (trim str) | _ \<Rightarrow> raiseJ TypeError)"

text \<open>
  \<open>score\<close>, statement by statement: \<open>trackMin_js\<close> is the body of the loop over the
  documents of an index entry, \<open>scanEntry_js\<close> the body of the loop over the entries,
  \<open>addMin_js\<close> the body of the loop over the minima, \<open>scoreWord_js\<close> the body of the loop
  over the query words, and \<open>pushResult_js\<close> the body of the loop over the documents.
  \<^verbatim>\<open>sumByDoc\<close>, \<^verbatim>\<open>minDistanceByDoc\<close> and \<^verbatim>\<open>results\<close> are new objects of the store.
\<close>

definition trackMin_js :: "addr \<Rightarrow> enat \<Rightarrow> addr \<Rightarrow> unit js" where
  "trackMin_js minDistanceByDoc distance doc =
     bindJ (numberMap_get minDistanceByDoc doc) (\<lambda>old.
       numberMap_set minDistanceByDoc doc
         (min distance (case old of Some d \<Rightarrow> d | None \<Rightarrow> \<infinity>)))"

definition scanEntry_js :: "addr \<Rightarrow> addr \<Rightarrow> string \<Rightarrow> string \<times> addr \<Rightarrow> unit js" where
  "scanEntry_js this minDistanceByDoc searchWord entry =
     (let docWord = fst entry; docs = snd entry;
          distance = levenshtein searchWord docWord 1 1 1
      in bindJ (getScorer this) (\<lambda>self.
           let distance = (if int distance > f_distanceThreshold self then \<infinity> else enat distance)
           in bindJ (getDocSet docs) (\<lambda>elems.
                forOf elems (trackMin_js minDistanceByDoc distance))))"

definition addMin_js :: "addr \<Rightarrow> addr \<times> enat \<Rightarrow> unit js" where
  "addMin_js sumRef entry =
     (let doc = fst entry; m = snd entry
      in bindJ (numberMap_get sumRef doc) (\<lambda>old.
           numberMap_set sumRef doc
             (m + (case old of None \<Rightarrow> 0 | Some summed \<Rightarrow> if summed = 0 then 0 else summed))))"

definition scoreWord_js :: "addr \<Rightarrow> addr \<Rightarrow> nat \<Rightarrow> string \<Rightarrow> unit js" where
  "scoreWord_js this sumRef i searchWord =
     bindJ (getScorer this) (\<lambda>self.
     bindJ (stringSet_has (if i = 0 then f_stopWords self else f_stopWordPrefixes self) searchWord)
       (\<lambda>skip.
     if skip then returnJ ()
     else bindJ (alloc (ONumberMap [])) (\<lambda>minDistanceByDoc.
          bindJ (getIndex (if i = 0 then f_documentsByWord self else f_documentsByPrefix self))
            (\<lambda>entries.
          bindJ (forOf entries (scanEntry_js this minDistanceByDoc searchWord)) (\<lambda>_.
          bindJ (getNumberMap minDistanceByDoc) (\<lambda>mins.
          forOf mins (addMin_js sumRef)))))))"

fun scoreWords_js :: "addr \<Rightarrow> addr \<Rightarrow> nat \<Rightarrow> string list \<Rightarrow> unit js" where
  "scoreWords_js this sumRef i [] = returnJ ()"
| "scoreWords_js this sumRef i (searchWord # rest) =
     bindJ (scoreWord_js this sumRef i searchWord) (\<lambda>_.
       scoreWords_js this sumRef (i + 1) rest)"

definition pushResult_js :: "addr \<Rightarrow> addr \<Rightarrow> addr \<Rightarrow> unit js" where
  "pushResult_js sumRef results doc =
     bindJ (numberMap_get sumRef doc) (\<lambda>found.
       results_push results
         \<lparr>result_document = doc,
          result_score = (case found of None \<Rightarrow> \<infinity> | Some summed \<Rightarrow> summed)\<rparr>)"

definition score_js :: "addr \<Rightarrow> js_value \<Rightarrow> addr js" where
  "score_js this searchString =
     bindJ (js_trim searchString) (\<lambda>trimmed.
     let searchWords = map toLocaleLowerCase (split trimmed)
     in bindJ (alloc (ONumberMap [])) (\<lambda>sumRef.
        bindJ (scoreWords_js this sumRef 0 searchWords) (\<lambda>_.
        bindJ (alloc (OResults [])) (\<lambda>results.
        bindJ (getScorer this) (\<lambda>self.
        bindJ (getDocSet (f_documents self)) (\<lambda>docs.
        bindJ (forOf docs (pushResult_js sumRef results)) (\<lambda>_.
        bindJ (results_sort results) (\<lambda>_.
        returnJ results))))))))"

text \<open>
  \<open>addDocument\<close>: \<open>indexKey_js\<close> is the three statements that enter a document under a
  key of an index, \<open>indexPrefix_js\<close> the body of the loop over the prefix lengths, and
  \<open>indexWord_js\<close> the body of the loop over the words. \<^verbatim>\<open>map\<close> builds a new array, and
  the assignment to \<^verbatim>\<open>doc.words\<close> writes to the document.
\<close>

definition indexKey_js :: "addr \<Rightarrow> addr \<Rightarrow> string \<Rightarrow> unit js" where
  "indexKey_js ix doc key =
     bindJ (index_get ix key) (\<lambda>found.
     bindJ (case found of Some a \<Rightarrow> returnJ a | None \<Rightarrow> alloc (ODocSet [])) (\<lambda>docs.
     bindJ (docSet_add docs doc) (\<lambda>_.
     index_set ix key docs)))"

definition indexPrefix_js :: "addr \<Rightarrow> addr \<Rightarrow> string \<Rightarrow> nat \<Rightarrow> unit js" where
  "indexPrefix_js this doc word i =
     bindJ (getScorer this) (\<lambda>self. indexKey_js (f_documentsByPrefix self) doc (take i word))"

definition indexWord_js :: "addr \<Rightarrow> addr \<Rightarrow> string \<Rightarrow> unit js" where
  "indexWord_js this doc word =
     bindJ (getScorer this) (\<lambda>self.
     bindJ (indexKey_js (f_documentsByWord self) doc word) (\<lambda>_.
     forOf [1..<length word + 1] (indexPrefix_js this doc word)))"

definition addDocument_js :: "addr \<Rightarrow> addr \<Rightarrow> unit js" where
  "addDocument_js this doc =
     bindJ (getScorer this) (\<lambda>self.
     bindJ (docSet_add (f_documents self) doc) (\<lambda>_.
     bindJ (getDocument doc) (\<lambda>fields.
     bindJ (getArray (snd fields)) (\<lambda>vs.
     bindJ (lowerWords vs) (\<lambda>lowered.
     bindJ (alloc (OArray (map JString lowered))) (\<lambda>newWords.
     bindJ (store_put doc (ODocument (fst fields) (JObject newWords))) (\<lambda>_.
     forOf lowered (indexWord_js this doc))))))))"

text \<open>
  The constructor with the setter of \<^verbatim>\<open>stopWords\<close>. The scorer is entered in the store
  when all its fields are set: no other code sees the object before the constructor
  returns.
\<close>

definition constructor_js :: "int \<Rightarrow> string list \<Rightarrow> addr js" where
  "constructor_js threshold array =
     bindJ (alloc (OStringSet [])) (\<lambda>sw.
     bindJ (forOf (map toLocaleLowerCase array) (stringSet_add sw)) (\<lambda>_.
     bindJ (alloc (OStringSet [])) (\<lambda>swp.
     bindJ (getStringSet sw) (\<lambda>ws.
     bindJ (forOf ws (\<lambda>word. forOf [1..<length word + 1] (\<lambda>i. stringSet_add swp (take i word))))
       (\<lambda>_.
     bindJ (alloc (ODocSet [])) (\<lambda>docs.
     bindJ (alloc (OIndex [])) (\<lambda>byWord.
     bindJ (alloc (OIndex [])) (\<lambda>byPrefix.
     alloc (OScorer \<lparr>f_distanceThreshold = threshold, f_stopWords = sw,
                     f_stopWordPrefixes = swp, f_documents = docs,
                     f_documentsByWord = byWord, f_documentsByPrefix = byPrefix\<rparr>)))))))))"

text \<open>
  A method \<open>frames\<close> the first \<open>n\<close> objects when it leaves them as they are and removes
  nothing. \<open>runs\<close> says that a call returns a value, with the store after it.
\<close>

definition frames :: "nat \<Rightarrow> 'a js \<Rightarrow> bool" where
  "frames n m =
     (\<forall>\<sigma>. n \<le> length \<sigma> \<longrightarrow> take n (snd (m \<sigma>)) = take n \<sigma> \<and> length \<sigma> \<le> length (snd (m \<sigma>)))"

definition runs :: "'a js \<Rightarrow> store \<Rightarrow> 'a \<Rightarrow> store \<Rightarrow> bool" where
  "runs m \<sigma> x \<sigma>' = (m \<sigma> = (Inr x, \<sigma>'))"

text \<open>
  The scorer that a store holds at an address, as a value of the first embedding, and the
  stores where the fields of the scorer are objects of the right kinds, no set of documents
  is shared between two keys or with the corpus, and the two indexes are two objects.
\<close>

definition stringSetAt :: "store \<Rightarrow> addr \<Rightarrow> string list" where
  "stringSetAt \<sigma> a = (case lookup \<sigma> a of Some (OStringSet xs) \<Rightarrow> xs | _ \<Rightarrow> [])"

definition docSetAt :: "store \<Rightarrow> addr \<Rightarrow> addr list" where
  "docSetAt \<sigma> a = (case lookup \<sigma> a of Some (ODocSet xs) \<Rightarrow> xs | _ \<Rightarrow> [])"

definition indexAt :: "store \<Rightarrow> addr \<Rightarrow> (string \<times> addr) list" where
  "indexAt \<sigma> a = (case lookup \<sigma> a of Some (OIndex m) \<Rightarrow> m | _ \<Rightarrow> [])"

definition resultsAt :: "store \<Rightarrow> addr \<Rightarrow> result list" where
  "resultsAt \<sigma> a = (case lookup \<sigma> a of Some (OResults rs) \<Rightarrow> rs | _ \<Rightarrow> [])"

definition isStringSet :: "store \<Rightarrow> addr \<Rightarrow> bool" where
  "isStringSet \<sigma> a = (case lookup \<sigma> a of Some (OStringSet xs) \<Rightarrow> True | _ \<Rightarrow> False)"

definition isDocSet :: "store \<Rightarrow> addr \<Rightarrow> bool" where
  "isDocSet \<sigma> a = (case lookup \<sigma> a of Some (ODocSet xs) \<Rightarrow> True | _ \<Rightarrow> False)"

definition isIndex :: "store \<Rightarrow> addr \<Rightarrow> bool" where
  "isIndex \<sigma> a = (case lookup \<sigma> a of Some (OIndex m) \<Rightarrow> True | _ \<Rightarrow> False)"

definition absIndex :: "store \<Rightarrow> (string \<times> addr) list \<Rightarrow> (string \<times> addr list) list" where
  "absIndex \<sigma> entries = map (\<lambda>entry. (fst entry, docSetAt \<sigma> (snd entry))) entries"

definition bucketAddrs :: "store \<Rightarrow> scorer_fields \<Rightarrow> addr list" where
  "bucketAddrs \<sigma> f =
     map snd (indexAt \<sigma> (f_documentsByWord f)) @ map snd (indexAt \<sigma> (f_documentsByPrefix f))"

definition absFields :: "store \<Rightarrow> scorer_fields \<Rightarrow> QueryScorer" where
  "absFields \<sigma> f =
     \<lparr>distanceThreshold = f_distanceThreshold f,
      stopWords = stringSetAt \<sigma> (f_stopWords f),
      stopWordPrefixes = stringSetAt \<sigma> (f_stopWordPrefixes f),
      documents = docSetAt \<sigma> (f_documents f),
      documentsByWord = absIndex \<sigma> (indexAt \<sigma> (f_documentsByWord f)),
      documentsByPrefix = absIndex \<sigma> (indexAt \<sigma> (f_documentsByPrefix f))\<rparr>"

definition absScorer :: "store \<Rightarrow> addr \<Rightarrow> QueryScorer" where
  "absScorer \<sigma> this =
     (case lookup \<sigma> this of Some (OScorer f) \<Rightarrow> absFields \<sigma> f | _ \<Rightarrow> new_QueryScorer 1 [])"

definition wellFormedFields :: "store \<Rightarrow> scorer_fields \<Rightarrow> bool" where
  "wellFormedFields \<sigma> f =
     (isStringSet \<sigma> (f_stopWords f) \<and> isStringSet \<sigma> (f_stopWordPrefixes f)
      \<and> isDocSet \<sigma> (f_documents f)
      \<and> isIndex \<sigma> (f_documentsByWord f) \<and> isIndex \<sigma> (f_documentsByPrefix f)
      \<and> f_documentsByWord f \<noteq> f_documentsByPrefix f
      \<and> list_all (isDocSet \<sigma>) (bucketAddrs \<sigma> f)
      \<and> distinct (f_documents f # bucketAddrs \<sigma> f))"

definition wellFormed :: "store \<Rightarrow> addr \<Rightarrow> bool" where
  "wellFormed \<sigma> this =
     (case lookup \<sigma> this of Some (OScorer f) \<Rightarrow> wellFormedFields \<sigma> f | _ \<Rightarrow> False)"

text \<open>
  A sample store: two documents of the caller with their arrays of words, then the objects
  of a scorer with the stop word \<^verbatim>\<open>The\<close> to which both documents were added.
\<close>

definition sampleObjects :: store where
  "sampleObjects =
     [ODocument (JString ''fruits'') (JObject 1), OArray [JString ''Pear'', JString ''fig''],
      ODocument (JString ''pets'') (JObject 3), OArray [JString ''cat'']]"

definition sampleBuild :: "addr js" where
  "sampleBuild =
     bindJ (constructor_js 1 [''The'']) (\<lambda>this.
     bindJ (addDocument_js this 0) (\<lambda>_.
     bindJ (addDocument_js this 2) (\<lambda>_.
     returnJ this)))"

definition sampleStore :: store where
  "sampleStore = snd (sampleBuild sampleObjects)"

section \<open>The rows compute the edit distance\<close>

lemma editDistance_Nil2: "editDistance ci cr cd xs [] = length xs * cd"
  by (cases xs) simp_all

lemma editDistance_swap: "editDistance ci cr cd xs ys = editDistance cd cr ci ys xs"
proof (induction ci cr cd xs ys rule: editDistance.induct)
  case (1 ci cr cd ys)
  then show ?case by (simp add: editDistance_Nil2)
next
  case (2 ci cr cd x xs)
  then show ?case by simp
next
  case (3 ci cr cd x xs y ys)
  then show ?case by (simp add: min.commute min.left_commute eq_commute[of x y])
qed

lemma editDistance_same: "editDistance ci cr cd xs xs = 0"
  by (induction xs) simp_all

lemma levCell_Suc:
  assumes "i1 < length word1" "i2 < length word2"
  shows "levCell ci cr cd word1 word2 (Suc i1) (Suc i2) =
     min (min (levCell ci cr cd word1 word2 i1 i2 + (if word1 ! i1 = word2 ! i2 then 0 else cr))
              (levCell ci cr cd word1 word2 i1 (Suc i2) + cd))
         (levCell ci cr cd word1 word2 (Suc i1) i2 + ci)"
  using assms by (simp add: levCell_def take_Suc_conv_app_nth)

lemma levCell_0: "i2 \<le> length word2 \<Longrightarrow> levCell ci cr cd word1 word2 0 i2 = i2 * ci"
  by (simp add: levCell_def)

lemma levCell_Suc_0:
  "i1 < length word1 \<Longrightarrow>
   levCell ci cr cd word1 word2 (Suc i1) 0 = levCell ci cr cd word1 word2 i1 0 + cd"
  by (simp add: levCell_def editDistance_Nil2 take_Suc_conv_app_nth)

lemma levInner_fold:
  assumes p1: "length p1 = Suc (length word2)"
      "\<forall>j\<le>length word2. p1 ! j = levCell ci cr cd word1 word2 i1 j"
    and p2: "length p2 = Suc (length word2)" "p2 ! 0 = levCell ci cr cd word1 word2 (Suc i1) 0"
    and i1: "i1 < length word1" and n: "n \<le> length word2"
  shows "length (fold (levInner ci cr cd (word1 ! i1) word2 p1) [0..<n] p2) = Suc (length word2)
    \<and> (\<forall>j\<le>n. fold (levInner ci cr cd (word1 ! i1) word2 p1) [0..<n] p2 ! j
          = levCell ci cr cd word1 word2 (Suc i1) j)"
  using n
proof (induction n)
  case 0
  then show ?case using p2 by simp
next
  case (Suc n)
  let ?q = "fold (levInner ci cr cd (word1 ! i1) word2 p1) [0..<n] p2"
  from Suc have len: "length ?q = Suc (length word2)"
    and cells: "\<forall>j\<le>n. ?q ! j = levCell ci cr cd word1 word2 (Suc i1) j"
    and n: "n < length word2" by simp_all
  have step: "fold (levInner ci cr cd (word1 ! i1) word2 p1) [0..<Suc n] p2
      = levInner ci cr cd (word1 ! i1) word2 p1 n ?q" by simp
  have new: "levInner ci cr cd (word1 ! i1) word2 p1 n ?q
      = ?q[Suc n := levCell ci cr cd word1 word2 (Suc i1) (Suc n)]"
    using p1 cells n i1
    by (simp add: levInner_def Let_def levCell_Suc min_def not_less)
  show ?case
    unfolding step new using len cells n
    by (auto simp: nth_list_update le_Suc_eq)
qed

lemma levOuter_fold:
  assumes "n \<le> length word1"
  shows "length (fst (fold (levOuter ci cr cd word1 word2) [0..<n]
            (map (\<lambda>i2. i2 * ci) [0..<length word2 + 1], replicate (length word2 + 1) 0)))
          = Suc (length word2)
    \<and> length (snd (fold (levOuter ci cr cd word1 word2) [0..<n]
            (map (\<lambda>i2. i2 * ci) [0..<length word2 + 1], replicate (length word2 + 1) 0)))
          = Suc (length word2)
    \<and> (\<forall>j\<le>length word2.
          fst (fold (levOuter ci cr cd word1 word2) [0..<n]
            (map (\<lambda>i2. i2 * ci) [0..<length word2 + 1], replicate (length word2 + 1) 0)) ! j
          = levCell ci cr cd word1 word2 n j)"
  using assms
proof (induction n)
  case 0
  have "\<And>j. j \<le> length word2 \<Longrightarrow> map (\<lambda>i2. i2 * ci) [0..<length word2 + 1] ! j = j * ci"
    by (simp add: nth_append less_Suc_eq_le del: upt_Suc)
  then show ?case by (simp add: levCell_0 del: upt_Suc)
next
  case (Suc n)
  let ?rows = "fold (levOuter ci cr cd word1 word2) [0..<n]
            (map (\<lambda>i2. i2 * ci) [0..<length word2 + 1], replicate (length word2 + 1) 0)"
  let ?p1 = "fst ?rows" and ?p2 = "snd ?rows"
  from Suc have l1: "length ?p1 = Suc (length word2)" and l2: "length ?p2 = Suc (length word2)"
    and cells: "\<forall>j\<le>length word2. ?p1 ! j = levCell ci cr cd word1 word2 n j"
    and n: "n < length word1" by simp_all
  let ?q = "?p2[0 := ?p1 ! 0 + cd]"
  have q: "length ?q = Suc (length word2)" "?q ! 0 = levCell ci cr cd word1 word2 (Suc n) 0"
    using l2 cells n by (simp_all add: levCell_Suc_0)
  have step: "fold (levOuter ci cr cd word1 word2) [0..<Suc n]
            (map (\<lambda>i2. i2 * ci) [0..<length word2 + 1], replicate (length word2 + 1) 0)
     = (fold (levInner ci cr cd (word1 ! n) word2 ?p1) [0..<length word2] ?q, ?p1)"
    by (simp add: levOuter_def Let_def del: upt_Suc) (simp add: levOuter_def Let_def)
  show ?case
    unfolding step using levInner_fold[OF l1 cells q n order_refl] l1
    by simp
qed

lemma levenshtein_editDistance:
  "levenshtein word1 word2 ci cr cd = editDistance ci cr cd (rev word1) (rev word2)"
proof (cases "word1 = word2 \<or> word1 = [] \<or> word2 = []")
  case True
  then show ?thesis
    by (auto simp: levenshtein_def editDistance_same editDistance_Nil2 Let_def)
next
  case False
  then have "levenshtein word1 word2 ci cr cd
     = fst (fold (levOuter ci cr cd word1 word2) [0..<length word1]
            (map (\<lambda>i2. i2 * ci) [0..<length word2 + 1], replicate (length word2 + 1) 0)) ! length word2"
    by (simp add: levenshtein_def Let_def del: upt_Suc)
  also have "\<dots> = levCell ci cr cd word1 word2 (length word1) (length word2)"
    using levOuter_fold[OF order_refl, where ?word1.0 = word1 and ?word2.0 = word2] by simp
  finally show ?thesis by (simp add: levCell_def)
qed

section \<open>Sets, lower case and splitting\<close>

lemma set_Set_add: "set (Set_add x xs) = insert x (set xs)"
  by (auto simp: Set_add_def)

lemma distinct_Set_add: "distinct xs \<Longrightarrow> distinct (Set_add x xs)"
  by (simp add: Set_add_def)

lemma set_fold_Set_add: "set (fold Set_add xs acc) = set xs \<union> set acc"
  by (induction xs arbitrary: acc) (auto simp: set_Set_add)

lemma lowerChar_idem: "lowerChar (lowerChar c) = lowerChar c"
proof -
  let ?n = "of_char c :: nat"
  show ?thesis
  proof (cases "(65 \<le> ?n \<and> ?n \<le> 90) \<or> (192 \<le> ?n \<and> ?n \<le> 222 \<and> ?n \<noteq> 215)")
    case True
    then have lt: "?n + 32 < 256" by auto
    have l: "lowerChar c = char_of (?n + 32)" using True by (simp add: lowerChar_def Let_def)
    have "(of_char (char_of (?n + 32) :: char) :: nat) = ?n + 32"
      using lt by simp
    then show ?thesis unfolding l using True
      by (auto simp add: lowerChar_def Let_def)
  next
    case False
    then have "lowerChar c = c" unfolding lowerChar_def Let_def by (simp only: if_False)
    then show ?thesis by simp
  qed
qed

lemma toLocaleLowerCase_idem: "toLocaleLowerCase (toLocaleLowerCase w) = toLocaleLowerCase w"
  by (simp add: toLocaleLowerCase_def lowerChar_idem)

lemma split_no_space: "\<not> (\<exists>c\<in>set str. isSpace c) \<Longrightarrow> split str = [str]"
  by (induction str) auto

lemma trim_no_space: "\<not> (\<exists>c\<in>set str. isSpace c) \<Longrightarrow> trim str = str"
  by (metis dropWhile_id rev_swap set_rev trim_def)

lemma split_not_Nil: "split str \<noteq> []"
  by (induction str rule: split.induct) (auto simp: Let_def)

section \<open>The indexes after \<open>addDocument\<close>\<close>

lemma bucket_Nil: "bucket [] k = {}"
  by (simp add: bucket_def)

lemma bucket_update:
  "bucket (AList.update k v m) k' = (if k' = k then set v else bucket m k')"
  by (simp add: bucket_def update_conv')

lemma set_get_or_empty:
  "set (case map_of m k of Some ds \<Rightarrow> ds | None \<Rightarrow> []) = bucket m k"
  by (simp add: bucket_def split: option.splits)

lemma bucket_indexPrefix:
  "bucket (indexPrefix doc word i m) p =
     (if p = take i word then insert doc (bucket m p) else bucket m p)"
  by (simp add: indexPrefix_def Let_def bucket_update set_Set_add set_get_or_empty)

lemma keys_indexPrefix:
  "fst ` set (indexPrefix doc word i m) = insert (take i word) (fst ` set m)"
  by (simp add: indexPrefix_def Let_def dom_update)

lemma distinct_indexPrefix:
  "distinct (map fst m) \<Longrightarrow> distinct (map fst (indexPrefix doc word i m))"
  by (simp add: indexPrefix_def Let_def distinct_update)

lemma fold_indexPrefix:
  "bucket (fold (indexPrefix doc word) ns m) p =
     (if p \<in> (\<lambda>i. take i word) ` set ns then insert doc (bucket m p) else bucket m p)"
  by (induction ns arbitrary: m) (auto simp: bucket_indexPrefix)

lemma keys_fold_indexPrefix:
  "fst ` set (fold (indexPrefix doc word) ns m) = (\<lambda>i. take i word) ` set ns \<union> fst ` set m"
  by (induction ns arbitrary: m) (auto simp: keys_indexPrefix)

lemma distinct_fold_indexPrefix:
  "distinct (map fst m) \<Longrightarrow> distinct (map fst (fold (indexPrefix doc word) ns m))"
  by (induction ns arbitrary: m) (auto simp: distinct_indexPrefix)

lemma prefix_range:
  "(\<lambda>i. take i word) ` {Suc 0..<Suc (length word)} = prefixesOf word"
  by (simp add: prefixesOf_def atLeastLessThanSuc_atLeastAtMost)

lemma indexWord_fields:
  "distanceThreshold (indexWord doc word s) = distanceThreshold s"
  "stopWords (indexWord doc word s) = stopWords s"
  "stopWordPrefixes (indexWord doc word s) = stopWordPrefixes s"
  "documents (indexWord doc word s) = documents s"
  by (simp_all add: indexWord_def Let_def)

lemma indexWord_byWord:
  "bucket (documentsByWord (indexWord doc word s)) k =
     (if k = word then insert doc (bucket (documentsByWord s) k) else bucket (documentsByWord s) k)"
  "fst ` set (documentsByWord (indexWord doc word s)) = insert word (fst ` set (documentsByWord s))"
  "distinct (map fst (documentsByWord s)) \<Longrightarrow> distinct (map fst (documentsByWord (indexWord doc word s)))"
  by (simp_all add: indexWord_def Let_def bucket_update set_Set_add set_get_or_empty dom_update
      distinct_update)

lemma indexWord_byPrefix:
  "bucket (documentsByPrefix (indexWord doc word s)) p =
     (if p \<in> prefixesOf word then insert doc (bucket (documentsByPrefix s) p)
      else bucket (documentsByPrefix s) p)"
  "fst ` set (documentsByPrefix (indexWord doc word s)) =
     prefixesOf word \<union> fst ` set (documentsByPrefix s)"
  "distinct (map fst (documentsByPrefix s)) \<Longrightarrow>
     distinct (map fst (documentsByPrefix (indexWord doc word s)))"
  by (simp_all add: indexWord_def Let_def fold_indexPrefix keys_fold_indexPrefix
      distinct_fold_indexPrefix prefix_range del: upt_Suc)

lemma fold_indexWord_fields:
  "distanceThreshold (fold (indexWord doc) ws s) = distanceThreshold s"
  "stopWords (fold (indexWord doc) ws s) = stopWords s"
  "stopWordPrefixes (fold (indexWord doc) ws s) = stopWordPrefixes s"
  "documents (fold (indexWord doc) ws s) = documents s"
  by (induction ws arbitrary: s) (simp_all add: indexWord_fields)

lemma fold_indexWord_byWord:
  "bucket (documentsByWord (fold (indexWord doc) ws s)) k =
     (if k \<in> set ws then insert doc (bucket (documentsByWord s) k) else bucket (documentsByWord s) k)"
  by (induction ws arbitrary: s) (auto simp: indexWord_byWord)

lemma fold_indexWord_byWord_keys:
  "fst ` set (documentsByWord (fold (indexWord doc) ws s)) = set ws \<union> fst ` set (documentsByWord s)"
  by (induction ws arbitrary: s) (auto simp: indexWord_byWord)

lemma fold_indexWord_byWord_distinct:
  "distinct (map fst (documentsByWord s)) \<Longrightarrow>
   distinct (map fst (documentsByWord (fold (indexWord doc) ws s)))"
  by (induction ws arbitrary: s) (auto simp: indexWord_byWord)

lemma fold_indexWord_byPrefix:
  "bucket (documentsByPrefix (fold (indexWord doc) ws s)) p =
     (if \<exists>w\<in>set ws. p \<in> prefixesOf w then insert doc (bucket (documentsByPrefix s) p)
      else bucket (documentsByPrefix s) p)"
  by (induction ws arbitrary: s) (auto simp: indexWord_byPrefix)

lemma fold_indexWord_byPrefix_keys:
  "fst ` set (documentsByPrefix (fold (indexWord doc) ws s)) =
     (\<Union>w\<in>set ws. prefixesOf w) \<union> fst ` set (documentsByPrefix s)"
  by (induction ws arbitrary: s) (auto simp: indexWord_byPrefix)

lemma fold_indexWord_byPrefix_distinct:
  "distinct (map fst (documentsByPrefix s)) \<Longrightarrow>
   distinct (map fst (documentsByPrefix (fold (indexWord doc) ws s)))"
  by (induction ws arbitrary: s) (auto simp: indexWord_byPrefix)

lemma addDocument_heap:
  "fst (addDocument doc (h, s)) = h(doc := (h doc)\<lparr>words := map toLocaleLowerCase (words (h doc))\<rparr>)"
  by (simp add: addDocument_def Let_def)

lemma addDocument_scorer:
  "snd (addDocument doc (h, s)) =
     fold (indexWord doc) (map toLocaleLowerCase (words (h doc)))
       (s\<lparr>documents := Set_add doc (documents s)\<rparr>)"
  by (simp add: addDocument_def Let_def)

lemma indexed_addDocument:
  assumes "indexed h s D"
  shows "indexed (fst (addDocument doc (h, s))) (snd (addDocument doc (h, s))) (insert doc D)"
proof -
  define ws where "ws = map toLocaleLowerCase (words (h doc))"
  define h' where "h' = h(doc := (h doc)\<lparr>words := ws\<rparr>)"
  define s' where "s' = fold (indexWord doc) ws (s\<lparr>documents := Set_add doc (documents s)\<rparr>)"
  have same: "doc \<in> D \<Longrightarrow> words (h doc) = ws"
    using assms by (simp add: indexed_def ws_def)
  have other: "\<And>d. d \<noteq> doc \<Longrightarrow> words (h' d) = words (h d)"
    by (simp add: h'_def)
  have wdoc: "words (h' doc) = ws" by (simp add: h'_def)
  have w: "\<And>d. d \<in> D \<Longrightarrow> words (h' d) = words (h d)"
    using same other wdoc by metis
  have low: "map toLocaleLowerCase ws = ws"
    using toLocaleLowerCase_idem by (simp add: toLocaleLowerCase_def ws_def)
  have "indexed h' s' (insert doc D)"
    unfolding indexed_def
  proof (intro conjI allI ballI)
    show "set (documents s') = insert doc D"
      using assms by (simp add: s'_def fold_indexWord_fields set_Set_add indexed_def)
    show "distinct (documents s')"
      using assms by (simp add: s'_def fold_indexWord_fields distinct_Set_add indexed_def)
    show "distinct (map fst (documentsByWord s'))"
      using assms by (simp add: s'_def fold_indexWord_byWord_distinct indexed_def)
    show "distinct (map fst (documentsByPrefix s'))"
      using assms by (simp add: s'_def fold_indexWord_byPrefix_distinct indexed_def)
  next
    fix k
    have "bucket (documentsByWord s) k = {d \<in> D. k \<in> set (words (h d))}"
      using assms by (simp add: indexed_def)
    then have "bucket (documentsByWord s') k
        = (if k \<in> set ws then insert doc {d \<in> D. k \<in> set (words (h d))}
           else {d \<in> D. k \<in> set (words (h d))})"
      by (simp add: s'_def fold_indexWord_byWord)
    also have "\<dots> = {d \<in> insert doc D. k \<in> set (words (h' d))}"
      using w wdoc same by auto
    finally show "bucket (documentsByWord s') k = {d \<in> insert doc D. k \<in> set (words (h' d))}" .
  next
    fix p
    have "bucket (documentsByPrefix s) p = {d \<in> D. \<exists>w\<in>set (words (h d)). p \<in> prefixesOf w}"
      using assms by (simp add: indexed_def)
    then have "bucket (documentsByPrefix s') p
        = (if \<exists>w\<in>set ws. p \<in> prefixesOf w
           then insert doc {d \<in> D. \<exists>w\<in>set (words (h d)). p \<in> prefixesOf w}
           else {d \<in> D. \<exists>w\<in>set (words (h d)). p \<in> prefixesOf w})"
      by (simp add: s'_def fold_indexWord_byPrefix)
    also have "\<dots> = {d \<in> insert doc D. \<exists>w\<in>set (words (h' d)). p \<in> prefixesOf w}"
      using w wdoc same by auto
    finally show "bucket (documentsByPrefix s') p
        = {d \<in> insert doc D. \<exists>w\<in>set (words (h' d)). p \<in> prefixesOf w}" .
  next
    have "fst ` set (documentsByWord s) = (\<Union>d\<in>D. set (words (h d)))"
      using assms by (simp add: indexed_def)
    then have "fst ` set (documentsByWord s') = set ws \<union> (\<Union>d\<in>D. set (words (h d)))"
      by (simp add: s'_def fold_indexWord_byWord_keys)
    also have "\<dots> = (\<Union>d\<in>insert doc D. set (words (h' d)))"
      using w wdoc by auto
    finally show "fst ` set (documentsByWord s') = (\<Union>d\<in>insert doc D. set (words (h' d)))" .
  next
    have "fst ` set (documentsByPrefix s) = (\<Union>d\<in>D. \<Union>w\<in>set (words (h d)). prefixesOf w)"
      using assms by (simp add: indexed_def)
    then have "fst ` set (documentsByPrefix s')
        = (\<Union>w\<in>set ws. prefixesOf w) \<union> (\<Union>d\<in>D. \<Union>w\<in>set (words (h d)). prefixesOf w)"
      by (simp add: s'_def fold_indexWord_byPrefix_keys)
    also have "\<dots> = (\<Union>d\<in>insert doc D. \<Union>w\<in>set (words (h' d)). prefixesOf w)"
      using w wdoc by auto
    finally show "fst ` set (documentsByPrefix s')
        = (\<Union>d\<in>insert doc D. \<Union>w\<in>set (words (h' d)). prefixesOf w)" .
  next
    fix d assume "d \<in> insert doc D"
    then have "d = doc \<or> (d \<noteq> doc \<and> d \<in> D)" by auto
    then show "map toLocaleLowerCase (words (h' d)) = words (h' d)"
    proof
      assume "d = doc"
      then show ?thesis using low wdoc by simp
    next
      assume "d \<noteq> doc \<and> d \<in> D"
      then show ?thesis using assms other by (simp add: indexed_def)
    qed
  qed
  then show ?thesis
    by (simp add: addDocument_heap addDocument_scorer h'_def s'_def ws_def)
qed

lemma indexed_fold_addDocument:
  "indexed h s D \<Longrightarrow>
   indexed (fst (fold addDocument docs (h, s))) (snd (fold addDocument docs (h, s))) (D \<union> set docs)"
proof (induction docs arbitrary: h s D)
  case Nil
  then show ?case by simp
next
  case (Cons doc docs)
  from indexed_addDocument[OF Cons.prems, of doc]
  have "indexed (fst (addDocument doc (h, s))) (snd (addDocument doc (h, s))) (insert doc D)" .
  from Cons.IH[OF this] show ?case by simp
qed

lemma new_QueryScorer_fields:
  "distanceThreshold (new_QueryScorer th sw) = th"
  "stopWords (new_QueryScorer th sw) = fold Set_add (map toLocaleLowerCase sw) []"
  "documents (new_QueryScorer th sw) = []"
  "documentsByWord (new_QueryScorer th sw) = []"
  "documentsByPrefix (new_QueryScorer th sw) = []"
  by (simp_all add: new_QueryScorer_def set_stopWords_def set_distanceThreshold_def Let_def)

lemma indexed_new: "indexed h (new_QueryScorer th sw) {}"
  by (simp add: indexed_def new_QueryScorer_fields bucket_Nil)

lemma indexed_buildScorer:
  "indexed (fst (buildScorer th sw docs h)) (snd (buildScorer th sw docs h)) (set docs)"
  using indexed_fold_addDocument[OF indexed_new, where docs = docs and h = h and th1 = th and sw1 = sw]
  by (simp add: buildScorer_def)

lemma fold_addDocument_heap:
  "fst (fold addDocument docs (h, s)) = loweredHeap h docs"
proof (induction docs arbitrary: h s)
  case Nil
  then show ?case by (simp add: loweredHeap_def)
next
  case (Cons doc docs)
  have "fold addDocument (doc # docs) (h, s)
      = fold addDocument docs (fst (addDocument doc (h, s)), snd (addDocument doc (h, s)))"
    by simp
  then have "fst (fold addDocument (doc # docs) (h, s))
      = loweredHeap (fst (addDocument doc (h, s))) docs"
    using Cons.IH[of "fst (addDocument doc (h, s))" "snd (addDocument doc (h, s))"] by simp
  also have "\<dots> = loweredHeap h (doc # docs)"
    using toLocaleLowerCase_idem
    by (auto simp: loweredHeap_def addDocument_heap fun_eq_iff toLocaleLowerCase_def)
  finally show ?case .
qed

lemma buildScorer_heap: "fst (buildScorer th sw docs h) = loweredHeap h docs"
  by (simp add: buildScorer_def fold_addDocument_heap)

section \<open>The minimum per document and the running sum\<close>

lemma map_of_trackMin:
  "map_of (trackMin x doc m) d =
     (if d = doc then Some (min x (orInfinity (map_of m doc))) else map_of m d)"
  by (simp add: trackMin_def update_conv' orInfinity_def)

lemma map_of_fold_trackMin:
  "map_of (fold (trackMin x) ds m) d =
     (if d \<in> set ds then Some (min x (orInfinity (map_of m d))) else map_of m d)"
  by (induction ds arbitrary: m) (auto simp: map_of_trackMin orInfinity_def)

lemma distinct_fold_trackMin:
  "distinct (map fst m) \<Longrightarrow> distinct (map fst (fold (trackMin x) ds m))"
  by (induction ds arbitrary: m) (auto simp: trackMin_def distinct_update)

lemma keys_fold_trackMin:
  "fst ` set (fold (trackMin x) ds m) = set ds \<union> fst ` set m"
  by (induction ds arbitrary: m) (auto simp: trackMin_def dom_update)

lemma scanEntry_trackMin:
  "scanEntry s w entry m = fold (trackMin (thresholdDistance s w (fst entry))) (snd entry) m"
  by (simp add: scanEntry_def Let_def thresholdDistance_def)

lemma map_of_scanEntry:
  "map_of (scanEntry s w entry m) d =
     (if d \<in> set (snd entry)
      then Some (min (thresholdDistance s w (fst entry)) (orInfinity (map_of m d)))
      else map_of m d)"
  by (simp add: scanEntry_trackMin map_of_fold_trackMin)

lemma distinct_fold_scanEntry:
  "distinct (map fst m) \<Longrightarrow> distinct (map fst (fold (scanEntry s w) idx m))"
  by (induction idx arbitrary: m) (auto simp: scanEntry_trackMin distinct_fold_trackMin)

lemma keys_fold_scanEntry:
  "fst ` set (fold (scanEntry s w) idx m) = (\<Union>entry\<in>set idx. set (snd entry)) \<union> fst ` set m"
  by (induction idx arbitrary: m) (auto simp: scanEntry_trackMin keys_fold_trackMin)

lemma map_of_fold_scanEntry:
  "map_of (fold (scanEntry s w) idx m) d =
     (if keyDistances s w idx d = [] then map_of m d
      else Some (min (Min (set (keyDistances s w idx d))) (orInfinity (map_of m d))))"
proof (induction idx arbitrary: m)
  case Nil
  then show ?case by (simp add: keyDistances_def)
next
  case (Cons entry idx)
  let ?x = "thresholdDistance s w (fst entry)"
  let ?rest = "keyDistances s w idx d"
  show ?case
  proof (cases "d \<in> set (snd entry)")
    case False
    then have "keyDistances s w (entry # idx) d = ?rest"
      by (simp add: keyDistances_def)
    moreover have "map_of (scanEntry s w entry m) d = map_of m d"
      using False by (simp add: map_of_scanEntry)
    ultimately show ?thesis using Cons.IH[of "scanEntry s w entry m"] by simp
  next
    case True
    then have kd: "keyDistances s w (entry # idx) d = ?x # ?rest"
      by (simp add: keyDistances_def)
    have m1: "map_of (scanEntry s w entry m) d = Some (min ?x (orInfinity (map_of m d)))"
      using True by (simp add: map_of_scanEntry)
    show ?thesis
    proof (cases "?rest = []")
      case True
      then show ?thesis using Cons.IH[of "scanEntry s w entry m"] m1 kd by simp
    next
      case False
      then have "Min (set (?x # ?rest)) = min ?x (Min (set ?rest))"
        by simp
      then show ?thesis using Cons.IH[of "scanEntry s w entry m"] m1 kd False
        by (simp add: orInfinity_def min.assoc min.commute min.left_commute)
    qed
  qed
qed

lemma set_keyDistances:
  assumes "distinct (map fst idx)"
  shows "set (keyDistances s w idx d) = thresholdDistance s w ` {k. d \<in> bucket idx k}"
proof -
  have "\<And>k. d \<in> bucket idx k \<longleftrightarrow> (\<exists>ds. (k, ds) \<in> set idx \<and> d \<in> set ds)"
    using assms by (auto simp: bucket_def split: option.splits dest: eq_key_imp_eq_value)
  then have "{k. d \<in> bucket idx k} = fst ` {entry \<in> set idx. d \<in> set (snd entry)}"
    by force
  then show ?thesis by (simp add: keyDistances_def image_image)
qed

lemma map_of_minDistances:
  assumes "distinct (map fst (documentsByWord s))" "distinct (map fst (documentsByPrefix s))"
  shows "map_of (minDistances s i w) d =
     (if {k. d \<in> bucket (if i = 0 then documentsByWord s else documentsByPrefix s) k} = {} then None
      else Some (Min (thresholdDistance s w `
             {k. d \<in> bucket (if i = 0 then documentsByWord s else documentsByPrefix s) k})))"
proof -
  let ?idx = "if i = 0 then documentsByWord s else documentsByPrefix s"
  have d: "distinct (map fst ?idx)" using assms by simp
  have "map_of (minDistances s i w) d =
     (if keyDistances s w ?idx d = [] then None
      else Some (Min (set (keyDistances s w ?idx d))))"
    unfolding minDistances_def map_of_fold_scanEntry by (simp add: orInfinity_def)
  moreover have "keyDistances s w ?idx d = [] \<longleftrightarrow> {k. d \<in> bucket ?idx k} = {}"
    using set_keyDistances[OF d, of s w d] by (metis image_is_empty set_empty)
  ultimately show ?thesis using set_keyDistances[OF d, of s w d] by simp
qed

lemma distinct_minDistances: "distinct (map fst (minDistances s i w))"
  by (simp add: minDistances_def distinct_fold_scanEntry)

lemma map_of_addMin:
  "map_of (addMin entry sumMap) d =
     (if d = fst entry
      then Some (snd entry + (case map_of sumMap d of None \<Rightarrow> 0 | Some v \<Rightarrow> v))
      else map_of sumMap d)"
  by (auto simp: addMin_def Let_def update_conv' split: option.splits)

lemma map_of_fold_addMin:
  "distinct (map fst md) \<Longrightarrow>
   map_of (fold addMin md sumMap) d =
     (case map_of md d of None \<Rightarrow> map_of sumMap d
      | Some m \<Rightarrow> Some (m + (case map_of sumMap d of None \<Rightarrow> 0 | Some v \<Rightarrow> v)))"
proof (induction md arbitrary: sumMap)
  case Nil
  then show ?case by simp
next
  case (Cons entry md)
  then have notin: "fst entry \<notin> fst ` set md" and dist: "distinct (map fst md)" by auto
  have none: "map_of md (fst entry) = None"
    using notin by (simp add: map_of_eq_None_iff)
  show ?case
  proof (cases "d = fst entry")
    case True
    then show ?thesis
      using Cons.IH[OF dist, of "addMin entry sumMap"] none
      by (simp add: map_of_addMin)
  next
    case False
    then show ?thesis
      using Cons.IH[OF dist, of "addMin entry sumMap"]
      by (simp add: map_of_addMin split: option.splits)
  qed
qed

lemma insertResult_insort: "insertResult r xs = insort_key result_score r xs"
  by (induction xs) (auto simp: compareFn_def)

lemma sortResults_sort_key: "sortResults rs = sort_key result_score rs"
  unfolding sortResults_def sort_key_def
  by (induction rs) (simp_all add: insertResult_insort)

section \<open>The result list\<close>

lemma score_sort:
  "score s q = sort_key result_score
     (map (\<lambda>doc. \<lparr>result_document = doc, result_score = finalScore (sumByDoc s q) doc\<rparr>) (documents s))"
  by (simp add: score_def Let_def finalScore_def sortResults_sort_key)

lemma mset_score_documents: "mset (map result_document (score s q)) = mset (documents s)"
proof -
  let ?f = "\<lambda>doc. \<lparr>result_document = doc, result_score = finalScore (sumByDoc s q) doc\<rparr>"
  have "mset (score s q) = image_mset ?f (mset (documents s))"
    unfolding score_sort by simp
  then have "mset (map result_document (score s q))
      = image_mset result_document (image_mset ?f (mset (documents s)))"
    by simp
  also have "\<dots> = mset (documents s)"
    by (simp add: multiset.map_comp comp_def)
  finally show ?thesis .
qed

lemma sorted_score: "sorted (map result_score (score s q))"
  unfolding score_sort by (rule sorted_sort_key)

lemma set_score:
  "set (score s q) =
     (\<lambda>doc. \<lparr>result_document = doc, result_score = finalScore (sumByDoc s q) doc\<rparr>) ` set (documents s)"
  unfolding score_sort by simp

lemma length_score: "length (score s q) = length (documents s)"
  unfolding score_sort by simp

section \<open>Stop words and the loop over the query words\<close>

lemma set_fold_prefix_add:
  "set (fold (\<lambda>i. Set_add (take i word)) ns acc) = (\<lambda>i. take i word) ` set ns \<union> set acc"
  by (induction ns arbitrary: acc) (auto simp: set_Set_add)

lemma set_fold_prefixes:
  "set (fold (\<lambda>word prefixes. fold (\<lambda>i. Set_add (take i word)) [1..<length word + 1] prefixes) ws acc)
     = (\<Union>word\<in>set ws. prefixesOf word) \<union> set acc"
proof (induction ws arbitrary: acc)
  case Nil
  then show ?case by simp
next
  case (Cons word ws)
  have "set (fold (\<lambda>i. Set_add (take i word)) [1..<length word + 1] acc)
      = prefixesOf word \<union> set acc"
    unfolding set_fold_prefix_add by (simp add: prefix_range del: upt_Suc)
  then show ?case using Cons.IH by auto
qed

lemma set_stopWords_sets:
  "set (stopWords (set_stopWords array s)) = toLocaleLowerCase ` set array"
  "set (stopWordPrefixes (set_stopWords array s))
     = (\<Union>x\<in>set array. prefixesOf (toLocaleLowerCase x))"
proof -
  have a: "stopWords (set_stopWords array s) = fold Set_add (map toLocaleLowerCase array) []"
    by (simp add: set_stopWords_def Let_def)
  have b: "stopWordPrefixes (set_stopWords array s)
      = fold (\<lambda>word prefixes. fold (\<lambda>i. Set_add (take i word)) [1..<length word + 1] prefixes)
          (fold Set_add (map toLocaleLowerCase array) []) []"
    by (simp add: set_stopWords_def Let_def del: upt_Suc)
  show "set (stopWords (set_stopWords array s)) = toLocaleLowerCase ` set array"
    unfolding a set_fold_Set_add by simp
  show "set (stopWordPrefixes (set_stopWords array s))
     = (\<Union>x\<in>set array. prefixesOf (toLocaleLowerCase x))"
    unfolding b set_fold_prefixes set_fold_Set_add by simp
qed

lemma new_QueryScorer_stop:
  "set (stopWords (new_QueryScorer th array)) = toLocaleLowerCase ` set array"
  "set (stopWordPrefixes (new_QueryScorer th array))
     = (\<Union>x\<in>set array. prefixesOf (toLocaleLowerCase x))"
  by (simp_all add: new_QueryScorer_def set_stopWords_sets)

lemma addDocument_fields:
  "distanceThreshold (snd (addDocument doc st)) = distanceThreshold (snd st)"
  "stopWords (snd (addDocument doc st)) = stopWords (snd st)"
  "stopWordPrefixes (snd (addDocument doc st)) = stopWordPrefixes (snd st)"
  by (simp_all add: addDocument_def Let_def fold_indexWord_fields)

lemma fold_addDocument_fields:
  "distanceThreshold (snd (fold addDocument docs st)) = distanceThreshold (snd st)"
  "stopWords (snd (fold addDocument docs st)) = stopWords (snd st)"
  "stopWordPrefixes (snd (fold addDocument docs st)) = stopWordPrefixes (snd st)"
  by (induction docs arbitrary: st) (simp_all add: addDocument_fields)

lemma buildScorer_fields:
  "distanceThreshold (snd (buildScorer th array docs h)) = th"
  "set (stopWords (snd (buildScorer th array docs h))) = toLocaleLowerCase ` set array"
  "set (stopWordPrefixes (snd (buildScorer th array docs h)))
     = (\<Union>x\<in>set array. prefixesOf (toLocaleLowerCase x))"
  by (simp_all add: buildScorer_def fold_addDocument_fields new_QueryScorer_stop
      new_QueryScorer_fields(1))

lemma scoreWords_all_skipped:
  "(\<forall>j<length ws. skipWord s (i + j) (ws ! j)) \<Longrightarrow> scoreWords s i ws m = m"
proof (induction ws arbitrary: i)
  case Nil
  then show ?case by simp
next
  case (Cons w ws)
  from Cons.prems have first: "skipWord s i w" by fastforce
  have "\<forall>j<length ws. skipWord s (Suc i + j) (ws ! j)"
  proof (intro allI impI)
    fix j assume "j < length ws"
    then have "skipWord s (i + Suc j) ((w # ws) ! Suc j)" using Cons.prems by fastforce
    then show "skipWord s (Suc i + j) (ws ! j)" by simp
  qed
  from Cons.IH[OF this] first show ?case by simp
qed

lemma keys_fold_addMin:
  "fst ` set (fold addMin md m) = fst ` set md \<union> fst ` set m"
  by (induction md arbitrary: m) (auto simp: addMin_def Let_def dom_update)

lemma keys_minDistances:
  "fst ` set (minDistances s i w) \<subseteq>
     (\<Union>entry\<in>set (documentsByWord s) \<union> set (documentsByPrefix s). set (snd entry))"
proof (cases "i = 0")
  case True
  then have "fst ` set (minDistances s i w) = (\<Union>entry\<in>set (documentsByWord s). set (snd entry))"
    by (simp add: minDistances_def keys_fold_scanEntry)
  then show ?thesis by blast
next
  case False
  then have "fst ` set (minDistances s i w) = (\<Union>entry\<in>set (documentsByPrefix s). set (snd entry))"
    by (simp add: minDistances_def keys_fold_scanEntry)
  then show ?thesis by blast
qed

lemma keys_scoreWords:
  "fst ` set (scoreWords s i ws m) \<subseteq>
     (\<Union>entry\<in>set (documentsByWord s) \<union> set (documentsByPrefix s). set (snd entry)) \<union> fst ` set m"
proof (induction ws arbitrary: i m)
  case Nil
  then show ?case by simp
next
  case (Cons w ws)
  define U where "U = (\<Union>entry\<in>set (documentsByWord s) \<union> set (documentsByPrefix s). set (snd entry))"
  show ?case
  proof (cases "skipWord s i w")
    case True
    then show ?thesis using Cons.IH[of "i + 1" m] by simp
  next
    case False
    define m' where "m' = fold addMin (minDistances s i w) m"
    have step: "scoreWords s i (w # ws) m = scoreWords s (i + 1) ws m'"
      using False by (simp add: m'_def)
    have "fst ` set m' = fst ` set (minDistances s i w) \<union> fst ` set m"
      unfolding m'_def by (rule keys_fold_addMin)
    then have m': "fst ` set m' \<subseteq> U \<union> fst ` set m"
      using keys_minDistances[of s i w] unfolding U_def by blast
    have "fst ` set (scoreWords s (i + 1) ws m') \<subseteq> U \<union> fst ` set m'"
      using Cons.IH[of "i + 1" m'] unfolding U_def .
    then have "fst ` set (scoreWords s (i + 1) ws m') \<subseteq> U \<union> fst ` set m"
      using m' by blast
    then show ?thesis unfolding step U_def .
  qed
qed

lemma entry_in_bucket:
  "distinct (map fst idx) \<Longrightarrow> entry \<in> set idx \<Longrightarrow> set (snd entry) = bucket idx (fst entry)"
  by (cases entry) (simp add: bucket_def)

lemma indexed_byWord:
  "indexed h s D \<Longrightarrow> bucket (documentsByWord s) k = {d \<in> D. k \<in> set (words (h d))}"
  by (simp add: indexed_def)

lemma indexed_byPrefix:
  "indexed h s D \<Longrightarrow>
   bucket (documentsByPrefix s) p = {d \<in> D. \<exists>w\<in>set (words (h d)). p \<in> prefixesOf w}"
  by (simp add: indexed_def)

lemma indexed_distinct:
  "indexed h s D \<Longrightarrow> distinct (map fst (documentsByWord s))"
  "indexed h s D \<Longrightarrow> distinct (map fst (documentsByPrefix s))"
  "indexed h s D \<Longrightarrow> distinct (documents s)"
  "indexed h s D \<Longrightarrow> set (documents s) = D"
  by (simp_all add: indexed_def)

lemma sumByDoc_keys:
  assumes "indexed h s D" and "map_of (sumByDoc s q) d \<noteq> None"
  shows "d \<in> D \<and> words (h d) \<noteq> []"
proof -
  from assms(2) have "d \<in> fst ` set (sumByDoc s q)"
    by (simp add: map_of_eq_None_iff)
  then have "d \<in> fst ` set (scoreWords s 0 (searchWords q) [])"
    by (simp add: sumByDoc_def)
  then have "d \<in> (\<Union>entry\<in>set (documentsByWord s) \<union> set (documentsByPrefix s). set (snd entry))"
    using keys_scoreWords[of s 0 "searchWords q" "[]"] by auto
  then obtain entry where e: "entry \<in> set (documentsByWord s) \<or> entry \<in> set (documentsByPrefix s)"
    and d: "d \<in> set (snd entry)" by auto
  from e show ?thesis
  proof
    assume "entry \<in> set (documentsByWord s)"
    then have "d \<in> bucket (documentsByWord s) (fst entry)"
      using entry_in_bucket[OF indexed_distinct(1)[OF assms(1)]] d by simp
    then have "d \<in> {d \<in> D. fst entry \<in> set (words (h d))}"
      unfolding indexed_byWord[OF assms(1)] .
    then show ?thesis by auto
  next
    assume "entry \<in> set (documentsByPrefix s)"
    then have "d \<in> bucket (documentsByPrefix s) (fst entry)"
      using entry_in_bucket[OF indexed_distinct(2)[OF assms(1)]] d by simp
    then have "d \<in> {d \<in> D. \<exists>w\<in>set (words (h d)). fst entry \<in> prefixesOf w}"
      unfolding indexed_byPrefix[OF assms(1)] .
    then show ?thesis by auto
  qed
qed

lemma sorted_enat_split:
  fixes xs :: "enat list"
  shows "sorted xs \<Longrightarrow> xs = filter (\<lambda>x. x \<noteq> \<infinity>) xs @ filter (\<lambda>x. x = \<infinity>) xs"
proof (induction xs)
  case Nil
  then show ?case by simp
next
  case (Cons x xs)
  show ?case
  proof (cases "x = \<infinity>")
    case True
    with Cons.prems have "\<forall>y\<in>set xs. y = \<infinity>" by auto
    then have "filter (\<lambda>x. x \<noteq> \<infinity>) xs = []" "filter (\<lambda>x. x = \<infinity>) xs = xs"
      by (simp_all add: filter_empty_conv filter_id_conv)
    then show ?thesis using True by simp
  next
    case False
    from Cons have "xs = filter (\<lambda>x. x \<noteq> \<infinity>) xs @ filter (\<lambda>x. x = \<infinity>) xs" by simp
    then show ?thesis using False by (simp del: not_infinity_eq)
  qed
qed

lemma mset_documents_built:
  "mset (documents (snd (buildScorer th array docs h))) = mset (remdups docs)"
proof -
  have "indexed (fst (buildScorer th array docs h)) (snd (buildScorer th array docs h)) (set docs)"
    by (rule indexed_buildScorer)
  then have "set (documents (snd (buildScorer th array docs h))) = set docs"
    and "distinct (documents (snd (buildScorer th array docs h)))"
    by (simp_all add: indexed_distinct)
  then show ?thesis
    using set_eq_iff_mset_eq_distinct[of "documents (snd (buildScorer th array docs h))" "remdups docs"]
    by simp
qed

lemma indexed_keys:
  "indexed h s D \<Longrightarrow> fst ` set (documentsByWord s) = (\<Union>d\<in>D. set (words (h d)))"
  "indexed h s D \<Longrightarrow>
   fst ` set (documentsByPrefix s) = (\<Union>d\<in>D. \<Union>w\<in>set (words (h d)). prefixesOf w)"
  by (simp_all add: indexed_def)

lemma built_indexed:
  assumes "s = snd (buildScorer threshold array docs h)"
    and "h' = fst (buildScorer threshold array docs h)"
  shows "indexed h' s (set docs)"
  unfolding assms by (rule indexed_buildScorer)

lemma minDistances_first:
  assumes inv: "indexed h' s D" and d: "d \<in> D"
  shows "map_of (minDistances s 0 w) d =
     (if words (h' d) = [] then None
      else Some (Min (thresholdDistance s w ` set (words (h' d)))))"
proof -
  have "{k. d \<in> bucket (documentsByWord s) k} = set (words (h' d))"
    unfolding indexed_byWord[OF inv] using d by auto
  then show ?thesis
    using map_of_minDistances[OF indexed_distinct(1)[OF inv] indexed_distinct(2)[OF inv], of 0 w d]
    by simp
qed

lemma minDistances_later:
  assumes inv: "indexed h' s D" and d: "d \<in> D" and i: "0 < i"
  shows "map_of (minDistances s i w) d =
     (if (\<Union>k\<in>set (words (h' d)). prefixesOf k) = {} then None
      else Some (Min (thresholdDistance s w ` (\<Union>k\<in>set (words (h' d)). prefixesOf k))))"
proof -
  have "{p. d \<in> bucket (documentsByPrefix s) p} = (\<Union>k\<in>set (words (h' d)). prefixesOf k)"
    unfolding indexed_byPrefix[OF inv] using d by auto
  then show ?thesis
    using map_of_minDistances[OF indexed_distinct(1)[OF inv] indexed_distinct(2)[OF inv], of i w d] i
    by simp
qed

lemma Min_enat_zero:
  fixes A :: "enat set"
  assumes "finite A" "0 \<in> A"
  shows "Min A = 0"
proof -
  have "Min A \<le> 0" using assms by (rule Min_le)
  then show ?thesis by simp
qed

lemma sorted_hd_least:
  fixes f :: "'a \<Rightarrow> enat"
  assumes "sorted (map f xs)" "x \<in> set xs"
  shows "f (hd xs) \<le> f x"
  using assms by (cases xs) auto

lemma singleton_list:
  assumes "distinct xs" "set xs = {x}"
  shows "xs = [x]"
proof -
  have "length xs = card (set xs)" using assms(1) by (simp add: distinct_card)
  then have "length xs = 1" using assms(2) by simp
  then obtain y where "xs = [y]" by (cases xs) auto
  then show ?thesis using assms(2) by simp
qed

lemma exact_word_sum:
  assumes inv: "indexed h' s D" and d: "d \<in> D" and w: "w \<in> set (words (h' d))"
    and th: "0 \<le> distanceThreshold s" and ns: "\<not> skipWord s 0 w"
  shows "map_of (scoreWords s 0 [w] []) d = Some 0"
proof -
  have ne: "words (h' d) \<noteq> []" using w by auto
  have td: "thresholdDistance s w w = 0"
    using th by (simp add: thresholdDistance_def levenshtein_def zero_enat_def)
  then have "0 \<in> thresholdDistance s w ` set (words (h' d))"
    using w by force
  then have "Min (thresholdDistance s w ` set (words (h' d))) = 0"
    by (intro Min_enat_zero) simp_all
  then have md: "map_of (minDistances s 0 w) d = Some 0"
    using minDistances_first[OF inv d, of w] ne by simp
  have "scoreWords s 0 [w] [] = fold addMin (minDistances s 0 w) []"
    using ns by simp
  then show ?thesis
    using map_of_fold_addMin[OF distinct_minDistances, of s 0 w "[]" d] md by simp
qed

section \<open>What \<open>score\<close> writes to\<close>

lemma frames_returnJ: "frames n (returnJ x)"
  by (simp add: frames_def returnJ_def)

lemma frames_raiseJ: "frames n (raiseJ e)"
  by (simp add: frames_def raiseJ_def)

lemma frames_bindJ:
  assumes "frames n m" and "\<And>x. frames n (f x)"
  shows "frames n (bindJ m f)"
  unfolding frames_def
proof (intro allI impI)
  fix \<sigma> :: store assume n: "n \<le> length \<sigma>"
  obtain r \<sigma>' where m: "m \<sigma> = (r, \<sigma>')" by (cases "m \<sigma>")
  from assms(1) n m have 1: "take n \<sigma>' = take n \<sigma>" "length \<sigma> \<le> length \<sigma>'"
    by (auto simp: frames_def dest!: spec[of _ \<sigma>])
  show "take n (snd (bindJ m f \<sigma>)) = take n \<sigma> \<and> length \<sigma> \<le> length (snd (bindJ m f \<sigma>))"
  proof (cases r)
    case (Inl e)
    then show ?thesis using m 1 by (simp add: bindJ_def)
  next
    case (Inr x)
    have "n \<le> length \<sigma>'" using n 1 by simp
    with assms(2)[of x] have "take n (snd (f x \<sigma>')) = take n \<sigma>'" "length \<sigma>' \<le> length (snd (f x \<sigma>'))"
      by (auto simp: frames_def)
    then show ?thesis using Inr m 1 by (simp add: bindJ_def)
  qed
qed

lemma frames_alloc_bindJ:
  assumes "\<And>a. n \<le> a \<Longrightarrow> frames n (f a)"
  shows "frames n (bindJ (alloc obj) f)"
  unfolding frames_def
proof (intro allI impI)
  fix \<sigma> :: store assume n: "n \<le> length \<sigma>"
  have b: "bindJ (alloc obj) f \<sigma> = f (length \<sigma>) (\<sigma> @ [obj])"
    by (simp add: bindJ_def alloc_def)
  have n': "n \<le> length (\<sigma> @ [obj])" using n by simp
  from assms[OF n] have "\<forall>\<sigma>'. n \<le> length \<sigma>' \<longrightarrow>
      take n (snd (f (length \<sigma>) \<sigma>')) = take n \<sigma>' \<and> length \<sigma>' \<le> length (snd (f (length \<sigma>) \<sigma>'))"
    by (simp add: frames_def)
  with n' have "take n (snd (f (length \<sigma>) (\<sigma> @ [obj]))) = take n (\<sigma> @ [obj])"
    "length (\<sigma> @ [obj]) \<le> length (snd (f (length \<sigma>) (\<sigma> @ [obj])))"
    by blast+
  then show "take n (snd (bindJ (alloc obj) f \<sigma>)) = take n \<sigma>
      \<and> length \<sigma> \<le> length (snd (bindJ (alloc obj) f \<sigma>))"
    unfolding b using n by simp
qed

lemma frames_forOf:
  assumes "\<And>x. frames n (body x)"
  shows "frames n (forOf xs body)"
  by (induction xs) (auto intro: frames_returnJ frames_bindJ assms)

lemma frames_store_put: "n \<le> a \<Longrightarrow> frames n (store_put a obj)"
  by (simp add: frames_def store_put_def)

lemma frames_get:
  "frames n (getStringSet a)" "frames n (getDocSet a)" "frames n (getIndex a)"
  "frames n (getNumberMap a)" "frames n (getResults a)" "frames n (getScorer a)"
  by (auto simp: frames_def getStringSet_def getDocSet_def getIndex_def getNumberMap_def
      getResults_def getScorer_def split: option.splits js_object.splits)

lemma frames_js_trim: "frames n (js_trim v)"
  by (cases v) (simp_all add: js_trim_def frames_returnJ frames_raiseJ)

lemma frames_stringSet_has: "frames n (stringSet_has a x)"
  unfolding stringSet_has_def by (intro frames_bindJ frames_get frames_returnJ)

lemma frames_numberMap_get: "frames n (numberMap_get a k)"
  unfolding numberMap_get_def by (intro frames_bindJ frames_get frames_returnJ)

lemma frames_numberMap_set: "n \<le> a \<Longrightarrow> frames n (numberMap_set a k v)"
  unfolding numberMap_set_def by (intro frames_bindJ frames_get frames_store_put)

lemma frames_results_push: "n \<le> a \<Longrightarrow> frames n (results_push a r)"
  unfolding results_push_def by (intro frames_bindJ frames_get frames_store_put)

lemma frames_results_sort: "n \<le> a \<Longrightarrow> frames n (results_sort a)"
  unfolding results_sort_def by (intro frames_bindJ frames_get frames_store_put)

lemma frames_trackMin_js: "n \<le> minD \<Longrightarrow> frames n (trackMin_js minD distance doc)"
  unfolding trackMin_js_def by (intro frames_bindJ frames_numberMap_get frames_numberMap_set)

lemma frames_scanEntry_js: "n \<le> minD \<Longrightarrow> frames n (scanEntry_js this minD w entry)"
  unfolding scanEntry_js_def Let_def
  by (intro frames_bindJ frames_get frames_forOf frames_trackMin_js)

lemma frames_addMin_js: "n \<le> sumRef \<Longrightarrow> frames n (addMin_js sumRef entry)"
  unfolding addMin_js_def Let_def
  by (intro frames_bindJ frames_numberMap_get frames_numberMap_set)

lemma frames_scoreWord_js: "n \<le> sumRef \<Longrightarrow> frames n (scoreWord_js this sumRef i w)"
  unfolding scoreWord_js_def
  by (intro frames_bindJ frames_get frames_stringSet_has)
     (auto intro!: frames_returnJ frames_alloc_bindJ frames_bindJ frames_get frames_forOf
        frames_scanEntry_js frames_addMin_js)

lemma frames_scoreWords_js: "n \<le> sumRef \<Longrightarrow> frames n (scoreWords_js this sumRef i ws)"
  by (induction ws arbitrary: i) (auto intro!: frames_returnJ frames_bindJ frames_scoreWord_js)

lemma frames_pushResult_js: "n \<le> results \<Longrightarrow> frames n (pushResult_js sumRef results doc)"
  unfolding pushResult_js_def
  by (intro frames_bindJ frames_numberMap_get frames_results_push)

lemma frames_score_js: "frames n (score_js this v)"
  unfolding score_js_def Let_def
  by (intro frames_bindJ frames_js_trim frames_alloc_bindJ frames_scoreWords_js frames_get
      frames_forOf frames_pushResult_js frames_results_sort frames_returnJ)

lemma score_js_unchanged: "take (length \<sigma>) (snd (score_js this v \<sigma>)) = \<sigma>"
  using frames_score_js[of "length \<sigma>" this v] by (simp add: frames_def)

section \<open>\<open>score\<close> on the store computes \<open>score\<close> on the scorer\<close>

lemma runs_bindJ: "runs m \<sigma> x \<sigma>1 \<Longrightarrow> runs (f x) \<sigma>1 y \<sigma>2 \<Longrightarrow> runs (bindJ m f) \<sigma> y \<sigma>2"
  by (simp add: runs_def bindJ_def)

lemma runs_returnJ: "runs (returnJ x) \<sigma> x \<sigma>"
  by (simp add: runs_def returnJ_def)

lemma lookup_Some_less: "lookup \<sigma> a = Some obj \<Longrightarrow> a < length \<sigma>"
  by (simp add: lookup_def split: if_splits)

lemma lookup_update:
  "lookup (\<sigma>[a := obj]) b = (if b = a \<and> a < length \<sigma> then Some obj else lookup \<sigma> b)"
  by (auto simp: lookup_def)

lemma lookup_append:
  "lookup (\<sigma> @ [obj]) b = (if b = length \<sigma> then Some obj else lookup \<sigma> b)"
  by (auto simp: lookup_def nth_append)

lemma lookup_extends:
  assumes "take (length \<sigma>0) \<sigma> = \<sigma>0" "lookup \<sigma>0 a = Some obj"
  shows "lookup \<sigma> a = Some obj"
proof -
  from assms(2) have a: "a < length \<sigma>0" "\<sigma>0 ! a = obj"
    by (auto simp: lookup_def split: if_splits)
  have "length (take (length \<sigma>0) \<sigma>) = length \<sigma>0" using assms(1) by simp
  then have "length \<sigma>0 \<le> length \<sigma>" by simp
  moreover have "\<sigma> ! a = \<sigma>0 ! a" using assms(1) a(1) by (metis nth_take)
  ultimately show ?thesis using a by (simp add: lookup_def)
qed

lemma update_same: "lookup \<sigma> a = Some obj \<Longrightarrow> \<sigma>[a := obj] = \<sigma>"
  using list_update_id[of \<sigma> a] by (auto simp: lookup_def split: if_splits)

lemma runs_get:
  "lookup \<sigma> a = Some (OStringSet xs) \<Longrightarrow> runs (getStringSet a) \<sigma> xs \<sigma>"
  "lookup \<sigma> a = Some (ODocSet ds) \<Longrightarrow> runs (getDocSet a) \<sigma> ds \<sigma>"
  "lookup \<sigma> a = Some (OIndex ix) \<Longrightarrow> runs (getIndex a) \<sigma> ix \<sigma>"
  "lookup \<sigma> a = Some (ONumberMap m) \<Longrightarrow> runs (getNumberMap a) \<sigma> m \<sigma>"
  "lookup \<sigma> a = Some (OResults rs) \<Longrightarrow> runs (getResults a) \<sigma> rs \<sigma>"
  "lookup \<sigma> a = Some (OScorer f) \<Longrightarrow> runs (getScorer a) \<sigma> f \<sigma>"
  by (simp_all add: runs_def getStringSet_def getDocSet_def getIndex_def getNumberMap_def
      getResults_def getScorer_def)

lemma runs_numberMap_set:
  "lookup \<sigma> a = Some (ONumberMap m) \<Longrightarrow>
   runs (numberMap_set a k v) \<sigma> () (\<sigma>[a := ONumberMap (AList.update k v m)])"
  by (simp add: runs_def numberMap_set_def bindJ_def getNumberMap_def store_put_def)

lemma runs_numberMap_get:
  "lookup \<sigma> a = Some (ONumberMap m) \<Longrightarrow> runs (numberMap_get a k) \<sigma> (map_of m k) \<sigma>"
  by (simp add: runs_def numberMap_get_def bindJ_def getNumberMap_def returnJ_def)

lemma runs_trackMin_js:
  "lookup \<sigma> minD = Some (ONumberMap m) \<Longrightarrow>
   runs (trackMin_js minD d doc) \<sigma> () (\<sigma>[minD := ONumberMap (trackMin d doc m)])"
  unfolding trackMin_js_def trackMin_def
  by (rule runs_bindJ[OF runs_numberMap_get runs_numberMap_set])

lemma runs_trackMin_loop:
  "lookup \<sigma> minD = Some (ONumberMap m) \<Longrightarrow>
   runs (forOf elems (trackMin_js minD d)) \<sigma> () (\<sigma>[minD := ONumberMap (fold (trackMin d) elems m)])"
proof (induction elems arbitrary: \<sigma> m)
  case Nil
  then have "\<sigma>[minD := ONumberMap m] = \<sigma>"
    by (simp add: update_same)
  then show ?case by (simp add: runs_returnJ)
next
  case (Cons doc elems)
  let ?\<sigma>1 = "\<sigma>[minD := ONumberMap (trackMin d doc m)]"
  have 1: "runs (trackMin_js minD d doc) \<sigma> () ?\<sigma>1"
    using Cons.prems by (rule runs_trackMin_js)
  have "lookup ?\<sigma>1 minD = Some (ONumberMap (trackMin d doc m))"
    using lookup_Some_less[OF Cons.prems] by (simp add: lookup_update)
  from Cons.IH[OF this]
  have 2: "runs (forOf elems (trackMin_js minD d)) ?\<sigma>1 ()
      (\<sigma>[minD := ONumberMap (fold (trackMin d) elems (trackMin d doc m))])"
    by simp
  show ?case using runs_bindJ[OF 1 2] by simp
qed

lemma runs_scanEntry_js:
  assumes "lookup \<sigma> this = Some (OScorer f)" "distanceThreshold s = f_distanceThreshold f"
    and "lookup \<sigma> (snd entry) = Some (ODocSet ds)"
    and "lookup \<sigma> minD = Some (ONumberMap m)"
  shows "runs (scanEntry_js this minD w entry) \<sigma> ()
           (\<sigma>[minD := ONumberMap (scanEntry s w (fst entry, ds) m)])"
proof -
  have 1: "runs (bindJ (getDocSet (snd entry))
          (\<lambda>elems. forOf elems (trackMin_js minD (thresholdDistance s w (fst entry))))) \<sigma> ()
        (\<sigma>[minD := ONumberMap (fold (trackMin (thresholdDistance s w (fst entry))) ds m)])"
    by (rule runs_bindJ[OF runs_get(2)[OF assms(3)] runs_trackMin_loop[OF assms(4)]])
  have 2: "scanEntry_js this minD w entry \<sigma>
      = bindJ (getDocSet (snd entry))
          (\<lambda>elems. forOf elems (trackMin_js minD (thresholdDistance s w (fst entry)))) \<sigma>"
    using assms(1,2)
    by (simp add: scanEntry_js_def Let_def bindJ_def getScorer_def thresholdDistance_def
        del: One_nat_def)
  have 3: "scanEntry s w (fst entry, ds) m
      = fold (trackMin (thresholdDistance s w (fst entry))) ds m"
    by (simp add: scanEntry_trackMin)
  show ?thesis using 1 unfolding runs_def 2 3 .
qed

lemma docSetAt_update:
  "isDocSet \<sigma> a \<Longrightarrow> lookup \<sigma> b = Some (ONumberMap m) \<Longrightarrow>
   docSetAt (\<sigma>[b := ONumberMap m']) a = docSetAt \<sigma> a"
  by (auto simp: docSetAt_def isDocSet_def lookup_update split: option.splits js_object.splits)

lemma isDocSet_update:
  "isDocSet \<sigma> a \<Longrightarrow> lookup \<sigma> b = Some (ONumberMap m) \<Longrightarrow>
   isDocSet (\<sigma>[b := ONumberMap m']) a"
  by (auto simp: isDocSet_def lookup_update split: option.splits js_object.splits)

lemma runs_scan_loop:
  assumes "lookup \<sigma> this = Some (OScorer f)" "distanceThreshold s = f_distanceThreshold f"
    and "list_all (\<lambda>entry. isDocSet \<sigma> (snd entry)) entries"
    and "lookup \<sigma> minD = Some (ONumberMap m)"
  shows "runs (forOf entries (scanEntry_js this minD w)) \<sigma> ()
           (\<sigma>[minD := ONumberMap (fold (scanEntry s w) (absIndex \<sigma> entries) m)])"
  using assms
proof (induction entries arbitrary: \<sigma> m)
  case Nil
  then have "\<sigma>[minD := ONumberMap m] = \<sigma>"
    by (simp add: update_same)
  then show ?case by (simp add: runs_returnJ absIndex_def)
next
  case (Cons entry entries)
  from Cons.prems(3) have e: "isDocSet \<sigma> (snd entry)"
    and es: "list_all (\<lambda>entry. isDocSet \<sigma> (snd entry)) entries" by simp_all
  from e have ds: "lookup \<sigma> (snd entry) = Some (ODocSet (docSetAt \<sigma> (snd entry)))"
    by (auto simp: isDocSet_def docSetAt_def split: option.splits js_object.splits)
  let ?m1 = "scanEntry s w (fst entry, docSetAt \<sigma> (snd entry)) m"
  let ?\<sigma>1 = "\<sigma>[minD := ONumberMap ?m1]"
  have 1: "runs (scanEntry_js this minD w entry) \<sigma> () ?\<sigma>1"
    by (rule runs_scanEntry_js[OF Cons.prems(1,2) ds Cons.prems(4)])
  have this1: "lookup ?\<sigma>1 this = Some (OScorer f)"
    using Cons.prems(1,4) by (auto simp: lookup_update)
  have es1: "list_all (\<lambda>entry. isDocSet ?\<sigma>1 (snd entry)) entries"
    using es isDocSet_update[OF _ Cons.prems(4)] by (simp add: list_all_iff)
  have m1: "lookup ?\<sigma>1 minD = Some (ONumberMap ?m1)"
    using lookup_Some_less[OF Cons.prems(4)] by (simp add: lookup_update)
  have same: "absIndex ?\<sigma>1 entries = absIndex \<sigma> entries"
    using es docSetAt_update[OF _ Cons.prems(4)] by (simp add: absIndex_def list_all_iff)
  from Cons.IH[OF this1 Cons.prems(2) es1 m1]
  have 2: "runs (forOf entries (scanEntry_js this minD w)) ?\<sigma>1 ()
      (\<sigma>[minD := ONumberMap (fold (scanEntry s w) (absIndex \<sigma> entries) ?m1)])"
    by (simp add: same)
  show ?case using runs_bindJ[OF 1 2] by (simp add: absIndex_def)
qed

lemma runs_addMin_js:
  "lookup \<sigma> sumRef = Some (ONumberMap sm) \<Longrightarrow>
   runs (addMin_js sumRef entry) \<sigma> () (\<sigma>[sumRef := ONumberMap (addMin entry sm)])"
  unfolding addMin_js_def addMin_def Let_def
  by (rule runs_bindJ[OF runs_numberMap_get runs_numberMap_set])

lemma runs_addMin_loop:
  "lookup \<sigma> sumRef = Some (ONumberMap sm) \<Longrightarrow>
   runs (forOf mins (addMin_js sumRef)) \<sigma> () (\<sigma>[sumRef := ONumberMap (fold addMin mins sm)])"
proof (induction mins arbitrary: \<sigma> sm)
  case Nil
  then have "\<sigma>[sumRef := ONumberMap sm] = \<sigma>"
    by (simp add: update_same)
  then show ?case by (simp add: runs_returnJ)
next
  case (Cons entry mins)
  let ?\<sigma>1 = "\<sigma>[sumRef := ONumberMap (addMin entry sm)]"
  have 1: "runs (addMin_js sumRef entry) \<sigma> () ?\<sigma>1"
    using Cons.prems by (rule runs_addMin_js)
  have "lookup ?\<sigma>1 sumRef = Some (ONumberMap (addMin entry sm))"
    using lookup_Some_less[OF Cons.prems] by (simp add: lookup_update)
  from Cons.IH[OF this]
  have 2: "runs (forOf mins (addMin_js sumRef)) ?\<sigma>1 ()
      (\<sigma>[sumRef := ONumberMap (fold addMin mins (addMin entry sm))])"
    by simp
  show ?case using runs_bindJ[OF 1 2] by simp
qed

lemma is_lookup:
  "isStringSet \<sigma> a \<Longrightarrow> lookup \<sigma> a = Some (OStringSet (stringSetAt \<sigma> a))"
  "isDocSet \<sigma> a \<Longrightarrow> lookup \<sigma> a = Some (ODocSet (docSetAt \<sigma> a))"
  "isIndex \<sigma> a \<Longrightarrow> lookup \<sigma> a = Some (OIndex (indexAt \<sigma> a))"
  by (auto simp: isStringSet_def isDocSet_def isIndex_def stringSetAt_def docSetAt_def indexAt_def
      split: option.splits js_object.splits)

lemma extends_length: "take (length \<sigma>0) \<sigma> = \<sigma>0 \<Longrightarrow> length \<sigma>0 \<le> length \<sigma>"
proof -
  assume "take (length \<sigma>0) \<sigma> = \<sigma>0"
  then have "length (take (length \<sigma>0) \<sigma>) = length \<sigma>0" by simp
  then show ?thesis by simp
qed

lemma extends_docSet:
  assumes "take (length \<sigma>0) \<sigma> = \<sigma>0" "isDocSet \<sigma>0 a"
  shows "isDocSet \<sigma> a" "docSetAt \<sigma> a = docSetAt \<sigma>0 a"
  using lookup_extends[OF assms(1) is_lookup(2)[OF assms(2)]]
  by (simp_all add: isDocSet_def docSetAt_def)

lemma extends_absIndex:
  assumes "take (length \<sigma>0) \<sigma> = \<sigma>0" "list_all (isDocSet \<sigma>0) (map snd entries)"
  shows "list_all (\<lambda>entry. isDocSet \<sigma> (snd entry)) entries" "absIndex \<sigma> entries = absIndex \<sigma>0 entries"
  using assms(2) extends_docSet[OF assms(1)]
  by (simp_all add: list_all_iff absIndex_def)

lemma skipWord_has:
  "skipWord s i w = Set_has (if i = 0 then stopWords s else stopWordPrefixes s) w"
  by (auto simp: skipWord_def)

lemma runs_stringSet_has:
  "lookup \<sigma> a = Some (OStringSet xs) \<Longrightarrow> runs (stringSet_has a x) \<sigma> (Set_has xs x) \<sigma>"
  unfolding stringSet_has_def by (rule runs_bindJ[OF runs_get(1) runs_returnJ])

lemma runs_alloc: "runs (alloc obj) \<sigma> (length \<sigma>) (\<sigma> @ [obj])"
  by (simp add: runs_def alloc_def)

lemma runs_scoreWord_js:
  assumes scorer: "lookup \<sigma>0 this = Some (OScorer f)" and wf: "wellFormedFields \<sigma>0 f"
    and s: "s = absFields \<sigma>0 f"
    and ext: "take (length \<sigma>0) \<sigma> = \<sigma>0"
    and sumRef: "lookup \<sigma> sumRef = Some (ONumberMap sm)"
  shows "\<exists>\<sigma>'. runs (scoreWord_js this sumRef i w) \<sigma> () \<sigma>'
     \<and> lookup \<sigma>' sumRef
         = Some (ONumberMap (if skipWord s i w then sm else fold addMin (minDistances s i w) sm))"
proof -
  define setA where "setA = (if i = 0 then f_stopWords f else f_stopWordPrefixes f)"
  define ixA where "ixA = (if i = 0 then f_documentsByWord f else f_documentsByPrefix f)"
  define entries where "entries = indexAt \<sigma>0 ixA"
  have thr: "distanceThreshold s = f_distanceThreshold f"
    by (simp add: s absFields_def)
  have "isStringSet \<sigma>0 setA" using wf by (simp add: wellFormedFields_def setA_def)
  then have "lookup \<sigma>0 setA = Some (OStringSet (stringSetAt \<sigma>0 setA))" by (rule is_lookup)
  moreover have "stringSetAt \<sigma>0 setA = (if i = 0 then stopWords s else stopWordPrefixes s)"
    by (simp add: s absFields_def setA_def)
  ultimately have set0: "lookup \<sigma>0 setA
      = Some (OStringSet (if i = 0 then stopWords s else stopWordPrefixes s))" by simp
  have r1: "runs (getScorer this) \<sigma> f \<sigma>"
    by (rule runs_get(6)[OF lookup_extends[OF ext scorer]])
  have r2: "runs (stringSet_has setA w) \<sigma> (skipWord s i w) \<sigma>"
    unfolding skipWord_has by (rule runs_stringSet_has[OF lookup_extends[OF ext set0]])
  show ?thesis
  proof (cases "skipWord s i w")
    case True
    have "runs (scoreWord_js this sumRef i w) \<sigma> () \<sigma>"
      unfolding scoreWord_js_def
      apply (rule runs_bindJ[OF r1])
      apply (rule runs_bindJ[OF r2[unfolded setA_def]])
      using True by (simp add: runs_returnJ)
    then show ?thesis using True sumRef by auto
  next
    case False
    define minD where "minD = length \<sigma>"
    define \<sigma>1 where "\<sigma>1 = \<sigma> @ [ONumberMap []]"
    have ext1: "take (length \<sigma>0) \<sigma>1 = \<sigma>0"
      using ext extends_length[OF ext] by (simp add: \<sigma>1_def)
    have "isIndex \<sigma>0 ixA" using wf by (simp add: wellFormedFields_def ixA_def)
    then have ix0: "lookup \<sigma>0 ixA = Some (OIndex entries)"
      unfolding entries_def by (rule is_lookup)
    have "list_all (isDocSet \<sigma>0) (map snd entries)"
      using wf by (auto simp: wellFormedFields_def bucketAddrs_def entries_def ixA_def)
    then have es1: "list_all (\<lambda>entry. isDocSet \<sigma>1 (snd entry)) entries"
      and abs1: "absIndex \<sigma>1 entries = absIndex \<sigma>0 entries"
      by (rule extends_absIndex[OF ext1])+
    have idx: "absIndex \<sigma>0 entries = (if i = 0 then documentsByWord s else documentsByPrefix s)"
      by (simp add: s absFields_def entries_def ixA_def)
    have m1: "lookup \<sigma>1 minD = Some (ONumberMap [])"
      by (simp add: \<sigma>1_def minD_def lookup_append)
    define mins where "mins = minDistances s i w"
    define \<sigma>2 where "\<sigma>2 = \<sigma>1[minD := ONumberMap mins]"
    have r3: "runs (alloc (ONumberMap [])) \<sigma> minD \<sigma>1"
      unfolding minD_def \<sigma>1_def by (rule runs_alloc)
    have r4: "runs (getIndex ixA) \<sigma>1 entries \<sigma>1"
      by (rule runs_get(3)[OF lookup_extends[OF ext1 ix0]])
    have r5: "runs (forOf entries (scanEntry_js this minD w)) \<sigma>1 () \<sigma>2"
      using runs_scan_loop[OF lookup_extends[OF ext1 scorer] thr es1 m1, of w]
      by (simp add: \<sigma>2_def mins_def minDistances_def abs1 idx)
    have m2: "lookup \<sigma>2 minD = Some (ONumberMap mins)"
      using lookup_Some_less[OF m1] by (simp add: \<sigma>2_def lookup_update)
    have r6: "runs (getNumberMap minD) \<sigma>2 mins \<sigma>2"
      by (rule runs_get(4)[OF m2])
    have "sumRef \<noteq> minD" using lookup_Some_less[OF sumRef] by (simp add: minD_def)
    then have s2: "lookup \<sigma>2 sumRef = Some (ONumberMap sm)"
      using sumRef by (simp add: \<sigma>2_def \<sigma>1_def lookup_update lookup_append minD_def)
    define \<sigma>3 where "\<sigma>3 = \<sigma>2[sumRef := ONumberMap (fold addMin mins sm)]"
    have r7: "runs (forOf mins (addMin_js sumRef)) \<sigma>2 () \<sigma>3"
      unfolding \<sigma>3_def by (rule runs_addMin_loop[OF s2])
    have "runs (scoreWord_js this sumRef i w) \<sigma> () \<sigma>3"
      unfolding scoreWord_js_def
      apply (rule runs_bindJ[OF r1])
      apply (rule runs_bindJ[OF r2[unfolded setA_def]])
      apply (simp only: False if_False)
      apply (rule runs_bindJ[OF r3])
      apply (rule runs_bindJ[OF r4[unfolded ixA_def]])
      apply (rule runs_bindJ[OF r5])
      apply (rule runs_bindJ[OF r6])
      apply (rule r7)
      done
    moreover have "lookup \<sigma>3 sumRef = Some (ONumberMap (fold addMin mins sm))"
      using lookup_Some_less[OF s2] by (simp add: \<sigma>3_def lookup_update)
    ultimately show ?thesis using False by (auto simp: mins_def)
  qed
qed

lemma runs_frames:
  assumes "runs m \<sigma> x \<sigma>'" "frames n m" "n \<le> length \<sigma>"
  shows "take n \<sigma>' = take n \<sigma>" "length \<sigma> \<le> length \<sigma>'"
  using assms by (auto simp: runs_def frames_def dest!: spec[of _ \<sigma>])

lemma runs_scoreWords_js:
  assumes scorer: "lookup \<sigma>0 this = Some (OScorer f)" and wf: "wellFormedFields \<sigma>0 f"
    and s: "s = absFields \<sigma>0 f"
    and ext: "take (length \<sigma>0) \<sigma> = \<sigma>0"
    and n: "length \<sigma>0 \<le> sumRef"
    and sumRef: "lookup \<sigma> sumRef = Some (ONumberMap sm)"
  shows "\<exists>\<sigma>'. runs (scoreWords_js this sumRef i ws) \<sigma> () \<sigma>'
     \<and> lookup \<sigma>' sumRef = Some (ONumberMap (scoreWords s i ws sm))"
  using ext sumRef
proof (induction ws arbitrary: \<sigma> i sm)
  case Nil
  have "runs (scoreWords_js this sumRef i []) \<sigma> () \<sigma>" by (simp add: runs_returnJ)
  then show ?case using Nil by auto
next
  case (Cons w ws)
  let ?sm1 = "if skipWord s i w then sm else fold addMin (minDistances s i w) sm"
  from runs_scoreWord_js[OF scorer wf s Cons.prems(1) Cons.prems(2), of i w]
  obtain \<sigma>1 where r1: "runs (scoreWord_js this sumRef i w) \<sigma> () \<sigma>1"
    and s1: "lookup \<sigma>1 sumRef = Some (ONumberMap ?sm1)" by blast
  have "take (length \<sigma>0) \<sigma>1 = take (length \<sigma>0) \<sigma>"
    by (rule runs_frames(1)[OF r1 frames_scoreWord_js[OF n] extends_length[OF Cons.prems(1)]])
  then have ext1: "take (length \<sigma>0) \<sigma>1 = \<sigma>0" using Cons.prems(1) by simp
  from Cons.IH[OF ext1 s1, of "i + 1"]
  obtain \<sigma>2 where r2: "runs (scoreWords_js this sumRef (i + 1) ws) \<sigma>1 () \<sigma>2"
    and s2: "lookup \<sigma>2 sumRef = Some (ONumberMap (scoreWords s (i + 1) ws ?sm1))" by blast
  have "runs (scoreWords_js this sumRef i (w # ws)) \<sigma> () \<sigma>2"
    by (simp del: One_nat_def) (rule runs_bindJ[OF r1 r2])
  moreover have "scoreWords s i (w # ws) sm = scoreWords s (i + 1) ws ?sm1"
    by simp
  ultimately show ?case using s2 by auto
qed

lemma runs_pushResult_loop:
  assumes "lookup \<sigma> sumRef = Some (ONumberMap sm)" "lookup \<sigma> results = Some (OResults rs)"
  shows "runs (forOf docs (pushResult_js sumRef results)) \<sigma> ()
     (\<sigma>[results := OResults (rs @ map (\<lambda>doc. \<lparr>result_document = doc,
                                         result_score = finalScore sm doc\<rparr>) docs)])"
  using assms
proof (induction docs arbitrary: \<sigma> rs)
  case Nil
  then show ?case by (simp add: runs_returnJ update_same)
next
  case (Cons doc docs)
  let ?r = "\<lparr>result_document = doc, result_score = finalScore sm doc\<rparr>"
  let ?\<sigma>1 = "\<sigma>[results := OResults (rs @ [?r])]"
  have "runs (results_push results ?r) \<sigma> () ?\<sigma>1"
    using Cons.prems(2)
    by (simp add: runs_def results_push_def bindJ_def getResults_def store_put_def)
  then have 1: "runs (pushResult_js sumRef results doc) \<sigma> () ?\<sigma>1"
    unfolding pushResult_js_def
    using runs_bindJ[OF runs_numberMap_get[OF Cons.prems(1), of doc]]
    by (simp add: finalScore_def)
  have r1: "lookup ?\<sigma>1 results = Some (OResults (rs @ [?r]))"
    using lookup_Some_less[OF Cons.prems(2)] by (simp add: lookup_update)
  have s1: "lookup ?\<sigma>1 sumRef = Some (ONumberMap sm)"
    using Cons.prems by (auto simp: lookup_update)
  from Cons.IH[OF s1 r1]
  have 2: "runs (forOf docs (pushResult_js sumRef results)) ?\<sigma>1 ()
     (\<sigma>[results := OResults (rs @ map (\<lambda>doc. \<lparr>result_document = doc,
                                         result_score = finalScore sm doc\<rparr>) (doc # docs))])"
    by simp
  show ?case using runs_bindJ[OF 1 2] by simp
qed

lemma runs_score_js:
  assumes wf: "wellFormed \<sigma> this"
  shows "\<exists>results \<sigma>'. runs (score_js this (JString q)) \<sigma> results \<sigma>'
     \<and> lookup \<sigma>' results = Some (OResults (score (absScorer \<sigma> this) q))"
proof -
  from wf obtain f where scorer: "lookup \<sigma> this = Some (OScorer f)"
    and wff: "wellFormedFields \<sigma> f"
    by (auto simp: wellFormed_def split: option.splits js_object.splits)
  define s where "s = absFields \<sigma> f"
  have abs: "absScorer \<sigma> this = s" using scorer by (simp add: absScorer_def s_def)
  define ws where "ws = map toLocaleLowerCase (split (trim q))"
  define sumRef where "sumRef = length \<sigma>"
  define \<sigma>1 where "\<sigma>1 = \<sigma> @ [ONumberMap []]"
  have ext1: "take (length \<sigma>) \<sigma>1 = \<sigma>" by (simp add: \<sigma>1_def)
  have s1: "lookup \<sigma>1 sumRef = Some (ONumberMap [])"
    by (simp add: \<sigma>1_def sumRef_def lookup_append)
  have r0: "runs (js_trim (JString q)) \<sigma> (trim q) \<sigma>"
    by (simp add: js_trim_def runs_returnJ)
  have r1: "runs (alloc (ONumberMap [])) \<sigma> sumRef \<sigma>1"
    unfolding sumRef_def \<sigma>1_def by (rule runs_alloc)
  from runs_scoreWords_js[OF scorer wff s_def ext1 _ s1, of 0 ws]
  obtain \<sigma>2 where r2: "runs (scoreWords_js this sumRef 0 ws) \<sigma>1 () \<sigma>2"
    and s2: "lookup \<sigma>2 sumRef = Some (ONumberMap (sumByDoc s q))"
    by (auto simp: sumRef_def sumByDoc_def searchWords_def ws_def)
  have "take (length \<sigma>) \<sigma>2 = take (length \<sigma>) \<sigma>1"
    by (rule runs_frames(1)[OF r2 frames_scoreWords_js]) (simp_all add: sumRef_def \<sigma>1_def)
  then have ext2: "take (length \<sigma>) \<sigma>2 = \<sigma>" using ext1 by simp
  define results where "results = length \<sigma>2"
  define \<sigma>3 where "\<sigma>3 = \<sigma>2 @ [OResults []]"
  have ext3: "take (length \<sigma>) \<sigma>3 = \<sigma>"
    using ext2 extends_length[OF ext2] by (simp add: \<sigma>3_def)
  have r3: "runs (alloc (OResults [])) \<sigma>2 results \<sigma>3"
    unfolding results_def \<sigma>3_def by (rule runs_alloc)
  have r4: "runs (getScorer this) \<sigma>3 f \<sigma>3"
    by (rule runs_get(6)[OF lookup_extends[OF ext3 scorer]])
  have "isDocSet \<sigma> (f_documents f)" using wff by (simp add: wellFormedFields_def)
  then have "lookup \<sigma> (f_documents f) = Some (ODocSet (documents s))"
    using is_lookup(2)[of \<sigma> "f_documents f"] by (simp add: s_def absFields_def)
  then have r5: "runs (getDocSet (f_documents f)) \<sigma>3 (documents s) \<sigma>3"
    by (rule runs_get(2)[OF lookup_extends[OF ext3]])
  have "sumRef \<noteq> results" using lookup_Some_less[OF s2] by (simp add: results_def)
  then have s3: "lookup \<sigma>3 sumRef = Some (ONumberMap (sumByDoc s q))"
    using s2 by (simp add: \<sigma>3_def lookup_append results_def)
  have res3: "lookup \<sigma>3 results = Some (OResults [])"
    by (simp add: \<sigma>3_def results_def lookup_append)
  define unsorted where "unsorted = map (\<lambda>doc. \<lparr>result_document = doc,
      result_score = finalScore (sumByDoc s q) doc\<rparr>) (documents s)"
  define \<sigma>4 where "\<sigma>4 = \<sigma>3[results := OResults unsorted]"
  have r6: "runs (forOf (documents s) (pushResult_js sumRef results)) \<sigma>3 () \<sigma>4"
    using runs_pushResult_loop[OF s3 res3, of "documents s"] by (simp add: \<sigma>4_def unsorted_def)
  have res4: "lookup \<sigma>4 results = Some (OResults unsorted)"
    using lookup_Some_less[OF res3] by (simp add: \<sigma>4_def lookup_update)
  define \<sigma>5 where "\<sigma>5 = \<sigma>4[results := OResults (sortResults unsorted)]"
  have r7: "runs (results_sort results) \<sigma>4 () \<sigma>5"
    using res4 by (simp add: runs_def results_sort_def bindJ_def getResults_def store_put_def \<sigma>5_def)
  have res5: "lookup \<sigma>5 results = Some (OResults (sortResults unsorted))"
    using lookup_Some_less[OF res4] by (simp add: \<sigma>5_def lookup_update)
  have "runs (score_js this (JString q)) \<sigma> results \<sigma>5"
    unfolding score_js_def Let_def
    apply (rule runs_bindJ[OF r0])
    apply (rule runs_bindJ[OF r1])
    apply (rule runs_bindJ[OF r2[unfolded ws_def]])
    apply (rule runs_bindJ[OF r3])
    apply (rule runs_bindJ[OF r4])
    apply (rule runs_bindJ[OF r5])
    apply (rule runs_bindJ[OF r6])
    apply (rule runs_bindJ[OF r7])
    apply (rule runs_returnJ)
    done
  moreover have "sortResults unsorted = score s q"
    by (simp add: score_def Let_def unsorted_def finalScore_def)
  ultimately show ?thesis using res5 abs by auto
qed

lemma extends_lookups:
  assumes ext: "take (length \<sigma>0) \<sigma> = \<sigma>0"
  shows "isStringSet \<sigma>0 a \<Longrightarrow> isStringSet \<sigma> a \<and> stringSetAt \<sigma> a = stringSetAt \<sigma>0 a"
    and "isIndex \<sigma>0 a \<Longrightarrow> isIndex \<sigma> a \<and> indexAt \<sigma> a = indexAt \<sigma>0 a"
    and "isDocSet \<sigma>0 a \<Longrightarrow> isDocSet \<sigma> a \<and> docSetAt \<sigma> a = docSetAt \<sigma>0 a"
  using lookup_extends[OF ext is_lookup(1), of a] lookup_extends[OF ext is_lookup(3), of a]
    lookup_extends[OF ext is_lookup(2), of a]
  by (simp_all add: isStringSet_def stringSetAt_def isIndex_def indexAt_def isDocSet_def docSetAt_def)

lemma wellFormedFields_extends:
  assumes ext: "take (length \<sigma>0) \<sigma> = \<sigma>0" and wf: "wellFormedFields \<sigma>0 f"
  shows "wellFormedFields \<sigma> f" "absFields \<sigma> f = absFields \<sigma>0 f"
proof -
  note l = extends_lookups[OF ext]
  from wf have sw: "isStringSet \<sigma>0 (f_stopWords f)" and swp: "isStringSet \<sigma>0 (f_stopWordPrefixes f)"
    and d: "isDocSet \<sigma>0 (f_documents f)"
    and bw: "isIndex \<sigma>0 (f_documentsByWord f)" and bp: "isIndex \<sigma>0 (f_documentsByPrefix f)"
    and ne: "f_documentsByWord f \<noteq> f_documentsByPrefix f"
    and all: "list_all (isDocSet \<sigma>0) (bucketAddrs \<sigma>0 f)"
    and dist: "distinct (f_documents f # bucketAddrs \<sigma>0 f)"
    by (simp_all add: wellFormedFields_def)
  have b: "bucketAddrs \<sigma> f = bucketAddrs \<sigma>0 f"
    using l(2)[OF bw] l(2)[OF bp] by (simp add: bucketAddrs_def)
  have all': "list_all (isDocSet \<sigma>) (bucketAddrs \<sigma>0 f)"
    using all l(3) by (simp add: list_all_iff)
  show "wellFormedFields \<sigma> f"
    unfolding wellFormedFields_def b
    using l(1)[OF sw] l(1)[OF swp] l(3)[OF d] l(2)[OF bw] l(2)[OF bp] ne all' dist by simp
  have w: "list_all (isDocSet \<sigma>0) (map snd (indexAt \<sigma>0 (f_documentsByWord f)))"
    and p: "list_all (isDocSet \<sigma>0) (map snd (indexAt \<sigma>0 (f_documentsByPrefix f)))"
    using all by (simp_all add: bucketAddrs_def)
  show "absFields \<sigma> f = absFields \<sigma>0 f"
    using l(1)[OF sw] l(1)[OF swp] l(3)[OF d] l(2)[OF bw] l(2)[OF bp]
      extends_absIndex(2)[OF ext w] extends_absIndex(2)[OF ext p]
    by (simp add: absFields_def)
qed

lemma wellFormed_extends:
  assumes ext: "take (length \<sigma>0) \<sigma> = \<sigma>0" and wf: "wellFormed \<sigma>0 this"
  shows "wellFormed \<sigma> this" "absScorer \<sigma> this = absScorer \<sigma>0 this"
proof -
  from wf obtain f where scorer: "lookup \<sigma>0 this = Some (OScorer f)"
    and wff: "wellFormedFields \<sigma>0 f"
    by (auto simp: wellFormed_def split: option.splits js_object.splits)
  note s = lookup_extends[OF ext scorer]
  show "wellFormed \<sigma> this"
    using s wellFormedFields_extends(1)[OF ext wff] by (simp add: wellFormed_def)
  show "absScorer \<sigma> this = absScorer \<sigma>0 this"
    using s scorer wellFormedFields_extends(2)[OF ext wff] by (simp add: absScorer_def)
qed

section \<open>The claims\<close>

text \<open>
  C1: for every corpus and every query string, \<open>score\<close> returns exactly one entry for
  each document that was added (none dropped, none twice), in ascending order of score,
  the infinite scores after all the finite ones. A document has the score that the sums
  hold for it, and the infinite score when no sum was recorded for it, which is the case
  for every document when all the query words are skipped, and for a document without
  keywords.
\<close>

theorem score_one_entry_per_document:
  assumes "s = snd (buildScorer threshold array docs h)"
  shows "mset (map result_document (score s q)) = mset (remdups docs)
    \<and> sorted (map result_score (score s q))
    \<and> map result_score (score s q)
        = filter (\<lambda>x. x \<noteq> \<infinity>) (map result_score (score s q))
          @ filter (\<lambda>x. x = \<infinity>) (map result_score (score s q))
    \<and> (d \<in> set docs \<longrightarrow>
          \<lparr>result_document = d,
           result_score = (case map_of (sumByDoc s q) d of None \<Rightarrow> \<infinity> | Some summed \<Rightarrow> summed)\<rparr>
            \<in> set (score s q))
    \<and> (d \<in> set docs \<and> map_of (sumByDoc s q) d = None \<longrightarrow>
          \<lparr>result_document = d, result_score = \<infinity>\<rparr> \<in> set (score s q))
    \<and> ((\<forall>i<length (searchWords q). skipWord s i (searchWords q ! i)) \<longrightarrow> sumByDoc s q = [])
    \<and> (words (h d) = [] \<longrightarrow> map_of (sumByDoc s q) d = None)"
proof -
  have inv: "indexed (loweredHeap h docs) s (set docs)"
    using indexed_buildScorer[of threshold array docs h] assms by (simp add: buildScorer_heap)
  have docs: "set (documents s) = set docs"
    using inv by (rule indexed_distinct(4))
  have c1: "mset (map result_document (score s q)) = mset (remdups docs)"
    unfolding assms mset_score_documents by (rule mset_documents_built)
  have c2: "sorted (map result_score (score s q))"
    by (rule sorted_score)
  have c3: "map result_score (score s q)
        = filter (\<lambda>x. x \<noteq> \<infinity>) (map result_score (score s q))
          @ filter (\<lambda>x. x = \<infinity>) (map result_score (score s q))"
    using c2 by (rule sorted_enat_split)
  have c4: "d \<in> set docs \<Longrightarrow>
          \<lparr>result_document = d,
           result_score = (case map_of (sumByDoc s q) d of None \<Rightarrow> \<infinity> | Some summed \<Rightarrow> summed)\<rparr>
            \<in> set (score s q)"
    unfolding set_score docs by (simp add: finalScore_def)
  have c5: "d \<in> set docs \<and> map_of (sumByDoc s q) d = None \<Longrightarrow>
          \<lparr>result_document = d, result_score = \<infinity>\<rparr> \<in> set (score s q)"
    using c4 by simp
  have c6: "(\<forall>i<length (searchWords q). skipWord s i (searchWords q ! i)) \<Longrightarrow> sumByDoc s q = []"
    unfolding sumByDoc_def by (rule scoreWords_all_skipped) simp
  have c7: "words (h d) = [] \<Longrightarrow> map_of (sumByDoc s q) d = None"
  proof (rule ccontr)
    assume e: "words (h d) = []" and "map_of (sumByDoc s q) d \<noteq> None"
    then have "words (loweredHeap h docs d) \<noteq> []"
      using sumByDoc_keys[OF inv] by blast
    then show False using e by (simp add: loweredHeap_def split: if_splits)
  qed
  show ?thesis using c1 c2 c3 c4 c5 c6 c7 by blast
qed

theorem score_one_entry_per_document_witness:
  "sampleScorer = snd (buildScorer 1 [''The''] [0, 1, 2] sampleDocuments)
   \<and> map result_document (score sampleScorer ''fig'') = [0, 1, 2]
   \<and> map result_score (score sampleScorer ''fig'') = [0, \<infinity>, \<infinity>]
   \<and> sumByDoc sampleScorer ''the'' = []
   \<and> \<lparr>result_document = 1, result_score = \<infinity>\<rparr> \<in> set (score sampleScorer ''the'')
   \<and> map_of (sumByDoc sampleScorer ''cat'') 2 = None"
proof -
  have s: "sampleScorer = snd (buildScorer 1 [''The''] [0, 1, 2] sampleDocuments)"
    by (simp add: sampleScorer_def)
  have ev: "map result_document (score sampleScorer ''fig'') = [0, 1, 2]"
    "map result_score (score sampleScorer ''fig'') = [0, \<infinity>, \<infinity>]"
    by code_simp+
  have skipped: "\<forall>i<length (searchWords ''the''). skipWord sampleScorer i (searchWords ''the'' ! i)"
    by code_simp
  have empty: "words (sampleDocuments 2) = []"
    by (simp add: sampleDocuments_def)
  have one: "(1::nat) \<in> set [0, 1, 2]" by simp
  note t1 = score_one_entry_per_document[OF s, of "''the''" 1]
  note t2 = score_one_entry_per_document[OF s, of "''cat''" 2]
  from t1 skipped have none: "sumByDoc sampleScorer ''the'' = []" by blast
  then have "map_of (sumByDoc sampleScorer ''the'') 1 = None" by simp
  with t1 one have inf: "\<lparr>result_document = 1, result_score = \<infinity>\<rparr> \<in> set (score sampleScorer ''the'')"
    by blast
  from t2 empty have "map_of (sumByDoc sampleScorer ''cat'') 2 = None" by blast
  with s ev none inf show ?thesis by simp
qed

text \<open>
  C2: adding the documents leaves their keywords in lower case; the keys of the
  exact-keyword index are these keywords, and the keys of the prefix index are their
  prefixes of length 1 up to the whole keyword. A query word at position 0 gets, for a
  document, the least distance over exactly the keywords of the document, and a word at a
  later position the least distance over exactly the prefixes of its keywords; a word that
  is not skipped adds these minima to the sums.
\<close>

theorem index_keys_compared:
  assumes "s = snd (buildScorer threshold array docs h)"
    and "h' = fst (buildScorer threshold array docs h)"
  shows "(d \<in> set docs \<longrightarrow> words (h' d) = map toLocaleLowerCase (words (h d)))
    \<and> set (map fst (documentsByWord s)) = (\<Union>d\<in>set docs. set (words (h' d)))
    \<and> set (map fst (documentsByPrefix s))
        = (\<Union>d\<in>set docs. \<Union>k\<in>set (words (h' d)). (\<lambda>n. take n k) ` {1..length k})
    \<and> (d \<in> set docs \<longrightarrow>
          map_of (minDistances s 0 w) d =
            (if words (h' d) = [] then None
             else Some (Min (thresholdDistance s w ` set (words (h' d))))))
    \<and> (d \<in> set docs \<and> 0 < i \<longrightarrow>
          map_of (minDistances s i w) d =
            (if (\<Union>k\<in>set (words (h' d)). prefixesOf k) = {} then None
             else Some (Min (thresholdDistance s w ` (\<Union>k\<in>set (words (h' d)). prefixesOf k)))))
    \<and> (\<not> skipWord s i w \<longrightarrow>
          scoreWords s i (w # rest) m
            = scoreWords s (i + 1) rest (fold addMin (minDistances s i w) m))"
proof -
  note inv = built_indexed[OF assms]
  have c1: "d \<in> set docs \<Longrightarrow> words (h' d) = map toLocaleLowerCase (words (h d))"
    unfolding assms(2) buildScorer_heap by (simp add: loweredHeap_def)
  have c2: "set (map fst (documentsByWord s)) = (\<Union>d\<in>set docs. set (words (h' d)))"
    using indexed_keys(1)[OF inv] by simp
  have c3: "set (map fst (documentsByPrefix s))
        = (\<Union>d\<in>set docs. \<Union>k\<in>set (words (h' d)). (\<lambda>n. take n k) ` {1..length k})"
    using indexed_keys(2)[OF inv] by (simp add: prefixesOf_def)
  show ?thesis
    using c1 c2 c3 minDistances_first[OF inv, of d w] minDistances_later[OF inv, of d i w]
    by simp
qed

theorem index_keys_compared_witness:
  "words (fst (buildScorer 1 [''The''] [0, 1, 2] sampleDocuments) 0) = [''pear'', ''fig'']
   \<and> map_of (minDistances sampleScorer 0 ''fi'') 0 = Some 1
   \<and> map_of (minDistances sampleScorer 1 ''fi'') 0 = Some 0
   \<and> scoreWords sampleScorer 1 [''fi''] [] = [(0, 0), (1, \<infinity>)]"
proof -
  define h' where "h' = fst (buildScorer 1 [''The''] [0, 1, 2] sampleDocuments)"
  have s: "sampleScorer = snd (buildScorer 1 [''The''] [0, 1, 2] sampleDocuments)"
    by (simp add: sampleScorer_def)
  have d: "(0::nat) \<in> set [0, 1, 2]" and i: "(0::nat) < 1" by simp_all
  have ns: "\<not> skipWord sampleScorer 1 ''fi''" by code_simp
  note t = index_keys_compared[OF s h'_def, of 0 "''fi''" 1 "[]" "[]"]
  have low: "map toLocaleLowerCase (words (sampleDocuments 0)) = [''pear'', ''fig'']"
    by code_simp
  from t d have "words (h' 0) = map toLocaleLowerCase (words (sampleDocuments 0))" by blast
  then have w: "words (h' 0) = [''pear'', ''fig'']" using low by simp
  have td: "thresholdDistance sampleScorer ''fi'' ''pear'' = \<infinity>"
    "thresholdDistance sampleScorer ''fi'' ''fig'' = 1"
    "thresholdDistance sampleScorer ''fi'' ''p'' = \<infinity>"
    "thresholdDistance sampleScorer ''fi'' ''pe'' = \<infinity>"
    "thresholdDistance sampleScorer ''fi'' ''pea'' = \<infinity>"
    "thresholdDistance sampleScorer ''fi'' ''f'' = 1"
    "thresholdDistance sampleScorer ''fi'' ''fi'' = 0"
    by code_simp+
  have pre: "prefixesOf ''pear'' = {''p'', ''pe'', ''pea'', ''pear''}"
    "prefixesOf ''fig'' = {''f'', ''fi'', ''fig''}"
    by code_simp+
  from t d have "map_of (minDistances sampleScorer 0 ''fi'') 0 =
            (if words (h' 0) = [] then None
             else Some (Min (thresholdDistance sampleScorer ''fi'' ` set (words (h' 0)))))"
    by blast
  then have m0: "map_of (minDistances sampleScorer 0 ''fi'') 0 = Some 1"
    unfolding w by (simp add: td)
  from t d i have "map_of (minDistances sampleScorer 1 ''fi'') 0 =
            (if (\<Union>k\<in>set (words (h' 0)). prefixesOf k) = {} then None
             else Some (Min (thresholdDistance sampleScorer ''fi'' `
                          (\<Union>k\<in>set (words (h' 0)). prefixesOf k))))"
    by blast
  then have m1: "map_of (minDistances sampleScorer 1 ''fi'') 0 = Some 0"
    unfolding w by (simp add: td pre)
  have f: "fold addMin (minDistances sampleScorer 1 ''fi'') [] = [(0, 0), (1, \<infinity>)]"
    by code_simp
  from t ns have "scoreWords sampleScorer 1 [''fi''] []
      = scoreWords sampleScorer (1 + 1) [] (fold addMin (minDistances sampleScorer 1 ''fi'') [])"
    by blast
  then have sw: "scoreWords sampleScorer 1 [''fi''] [] = [(0, 0), (1, \<infinity>)]"
    using f by simp
  show ?thesis using w m0 m1 sw unfolding h'_def by simp
qed



text \<open>
  C4: when the edit distance between a query word and a key is above the threshold,
  scanning that key leaves the minimum of every document that has one as it is, and gives
  the documents under the key that have none the infinite distance; and the result list
  still holds every document of the corpus.
\<close>

theorem beyond_threshold_no_contribution:
  assumes "int (levenshtein w k 1 1 1) > distanceThreshold s"
  shows "map_of (scanEntry s w (k, ds) m) d =
      (if d \<in> set ds then Some (case map_of m d of Some v \<Rightarrow> v | None \<Rightarrow> \<infinity>) else map_of m d)
    \<and> mset (map result_document (score s q)) = mset (documents s)
    \<and> length (score s q) = length (documents s)"
proof -
  have "thresholdDistance s w k = \<infinity>"
    using assms by (simp add: thresholdDistance_def)
  then have "map_of (scanEntry s w (k, ds) m) d =
      (if d \<in> set ds then Some (case map_of m d of Some v \<Rightarrow> v | None \<Rightarrow> \<infinity>) else map_of m d)"
    by (simp add: map_of_scanEntry orInfinity_def)
  then show ?thesis
    using mset_score_documents[of s q] length_score[of s q] by blast
qed

theorem beyond_threshold_no_contribution_witness:
  "int (levenshtein ''f'' ''fig'' 1 1 1) > distanceThreshold sampleScorer
   \<and> map_of (scanEntry sampleScorer ''f'' (''fig'', [0]) []) 0 = Some \<infinity>
   \<and> map_of (scanEntry sampleScorer ''f'' (''fig'', [0]) [(0, 1)]) 0 = Some 1
   \<and> map result_document (score sampleScorer ''f'') = [0, 1, 2]"
proof -
  have h: "int (levenshtein ''f'' ''fig'' 1 1 1) > distanceThreshold sampleScorer"
    by code_simp
  have docs: "documents sampleScorer = [0, 1, 2]" by code_simp
  have r: "map result_document (score sampleScorer ''f'') = [0, 1, 2]" by code_simp
  show ?thesis
    using h beyond_threshold_no_contribution[OF h, of "[0]" "[]" 0 "''f''"]
      beyond_threshold_no_contribution[OF h, of "[0]" "[(0, 1)]" 0 "''f''"] r
    by simp
qed

text \<open>
  C5, as amended: let \<open>d\<close> be a document that was added and \<open>k\<close> one of its keywords,
  let the threshold be at least 0, and let the query contain no white space, be equal to
  \<open>k\<close> up to case, and not be a stop word in lower case. Then \<open>score\<close> lists \<open>d\<close> with
  score 0; \<open>d\<close> is first when no other document has score 0, and it is the only result
  when it is the only document. (The query may be the keyword as the caller wrote it or
  as \<open>addDocument\<close> left it, in lower case.)
\<close>

theorem exact_keyword_scores_zero:
  assumes s: "s = snd (buildScorer threshold array docs h)"
    and d: "d \<in> set docs" and k: "k \<in> set (words (h d))"
    and q: "toLocaleLowerCase q = toLocaleLowerCase k"
    and nospace: "\<forall>c\<in>set q. \<not> isSpace c"
    and nostop: "toLocaleLowerCase k \<notin> toLocaleLowerCase ` set array"
    and th: "0 \<le> threshold"
  shows "\<lparr>result_document = d, result_score = 0\<rparr> \<in> set (score s q)
    \<and> ((\<forall>r\<in>set (score s q). result_document r \<noteq> d \<longrightarrow> result_score r \<noteq> 0)
         \<longrightarrow> hd (score s q) = \<lparr>result_document = d, result_score = 0\<rparr>)
    \<and> (set docs = {d} \<longrightarrow> score s q = [\<lparr>result_document = d, result_score = 0\<rparr>])"
proof -
  define w where "w = toLocaleLowerCase k"
  define h' where "h' = fst (buildScorer threshold array docs h)"
  note inv = built_indexed[OF s h'_def]
  have "\<not> (\<exists>c\<in>set q. isSpace c)" using nospace by simp
  then have "split (trim q) = [q]"
    using trim_no_space[of q] split_no_space[of q] by simp
  then have sw: "searchWords q = [w]"
    using q by (simp add: searchWords_def w_def)
  have ns: "\<not> skipWord s 0 w"
    using nostop buildScorer_fields(2)[of threshold array docs h]
    by (simp add: skipWord_def Set_has_def s w_def)
  have "words (h' d) = map toLocaleLowerCase (words (h d))"
    using d unfolding h'_def buildScorer_heap by (simp add: loweredHeap_def)
  then have wd: "w \<in> set (words (h' d))"
    using k by (simp add: w_def)
  have th': "0 \<le> distanceThreshold s"
    using th by (simp add: s buildScorer_fields(1))
  have "map_of (sumByDoc s q) d = Some 0"
    unfolding sumByDoc_def sw by (rule exact_word_sum[OF inv d wd th' ns])
  then have fs: "finalScore (sumByDoc s q) d = 0"
    by (simp add: finalScore_def)
  have docs: "set (documents s) = set docs" "distinct (documents s)"
    using inv by (simp_all add: indexed_distinct)
  have mem: "\<lparr>result_document = d, result_score = 0\<rparr> \<in> set (score s q)"
    unfolding set_score using d docs(1) fs by force
  have first: "hd (score s q) = \<lparr>result_document = d, result_score = 0\<rparr>"
    if others: "\<forall>r\<in>set (score s q). result_document r \<noteq> d \<longrightarrow> result_score r \<noteq> 0"
  proof -
    have ne: "score s q \<noteq> []" using mem by auto
    have "result_score (hd (score s q)) \<le> result_score \<lparr>result_document = d, result_score = 0\<rparr>"
      using sorted_score[of s q] mem by (rule sorted_hd_least)
    then have z: "result_score (hd (score s q)) = 0" by simp
    have "hd (score s q) \<in> set (score s q)" using ne by simp
    then have "result_document (hd (score s q)) = d" using others z by blast
    then show ?thesis using z by (cases "hd (score s q)") simp
  qed
  have sole: "score s q = [\<lparr>result_document = d, result_score = 0\<rparr>]" if one: "set docs = {d}"
  proof -
    have "documents s = [d]" using docs one by (intro singleton_list) simp_all
    then have "length (score s q) = 1" by (simp add: length_score)
    then obtain r where "score s q = [r]" by (cases "score s q") auto
    then show ?thesis using mem by simp
  qed
  show ?thesis using mem first sole by blast
qed

theorem exact_keyword_scores_zero_witness:
  "(0::nat) \<in> set [0, 1, 2] \<and> ''Pear'' \<in> set (words (sampleDocuments 0))
   \<and> toLocaleLowerCase ''pear'' = toLocaleLowerCase ''Pear''
   \<and> \<lparr>result_document = 0, result_score = 0\<rparr> \<in> set (score sampleScorer ''pear'')
   \<and> hd (score sampleScorer ''pear'') = \<lparr>result_document = 0, result_score = 0\<rparr>
   \<and> score (snd (buildScorer 1 [] [0] sampleDocuments)) ''Pear''
        = [\<lparr>result_document = 0, result_score = 0\<rparr>]"
proof -
  have s: "sampleScorer = snd (buildScorer 1 [''The''] [0, 1, 2] sampleDocuments)"
    by (simp add: sampleScorer_def)
  have d: "(0::nat) \<in> set [0, 1, 2]" by simp
  have k: "''Pear'' \<in> set (words (sampleDocuments 0))" by (simp add: sampleDocuments_def)
  have q: "toLocaleLowerCase ''pear'' = toLocaleLowerCase ''Pear''" by code_simp
  have nospace: "\<forall>c\<in>set ''pear''. \<not> isSpace c" by code_simp
  have nostop: "toLocaleLowerCase ''Pear'' \<notin> toLocaleLowerCase ` set [''The'']" by code_simp
  have th: "(0::int) \<le> 1" by simp
  note t = exact_keyword_scores_zero[OF s d k q nospace nostop th]
  have others: "\<forall>r\<in>set (score sampleScorer ''pear''). result_document r \<noteq> 0 \<longrightarrow> result_score r \<noteq> 0"
    by code_simp
  have d1: "(0::nat) \<in> set [0]" by simp
  have q1: "toLocaleLowerCase ''Pear'' = toLocaleLowerCase ''Pear''" by simp
  have nospace1: "\<forall>c\<in>set ''Pear''. \<not> isSpace c" by code_simp
  have nostop1: "toLocaleLowerCase ''Pear'' \<notin> toLocaleLowerCase ` set []" by simp
  have sole: "set [0::nat] = {0}" by simp
  note t1 = exact_keyword_scores_zero[where s = "snd (buildScorer 1 [] [0] sampleDocuments)"
      and threshold = 1 and array = "[]" and docs = "[0]" and h = sampleDocuments,
      OF refl d1 k q1 nospace1 nostop1 th]
  from t others have "hd (score sampleScorer ''pear'') = \<lparr>result_document = 0, result_score = 0\<rparr>"
    by blast
  moreover from t have "\<lparr>result_document = 0, result_score = 0\<rparr> \<in> set (score sampleScorer ''pear'')"
    by blast
  moreover from t1 sole have "score (snd (buildScorer 1 [] [0] sampleDocuments)) ''Pear''
        = [\<lparr>result_document = 0, result_score = 0\<rparr>]"
    by blast
  ultimately show ?thesis using d k q by blast
qed

text \<open>
  C5 as stated fails for a keyword that is a stop word: the query equal to the keyword is
  skipped, and the document gets the infinite score. It also fails for a keyword with
  white space in it, which the query splits into two words, and under a negative
  threshold, which not even the distance 0 passes.
\<close>

theorem stop_word_keyword_counterexample:
  "''fig'' \<in> set (words (sampleDocuments 0))
   \<and> score (snd (buildScorer 1 [''fig''] [0, 1] sampleDocuments)) ''fig''
       = [\<lparr>result_document = 0, result_score = \<infinity>\<rparr>, \<lparr>result_document = 1, result_score = \<infinity>\<rparr>]
   \<and> ''ice cream'' \<in> set (words (sampleDocuments 3))
   \<and> score (snd (buildScorer 1 [] [3] sampleDocuments)) ''ice cream''
       = [\<lparr>result_document = 3, result_score = \<infinity>\<rparr>]
   \<and> ''cat'' \<in> set (words (sampleDocuments 1))
   \<and> score (snd (buildScorer (- 1) [] [1] sampleDocuments)) ''cat''
       = [\<lparr>result_document = 1, result_score = \<infinity>\<rparr>]"
  by code_simp

text \<open>
  C7: the edit distance of a string from itself is 0, and when one of the two strings is
  empty it is the length of the other one times the cost of an insertion (first string
  empty) or of a deletion (second string empty), for costs that keep this product within
  2^53, where the doubles of the source hold the integers exactly; with the default costs
  it is the length.
\<close>

theorem levenshtein_identical_or_empty:
  "levenshtein a a costIns costRep costDel = 0
   \<and> (length s * costIns \<le> 2 ^ 53 \<longrightarrow>
         levenshtein [] s costIns costRep costDel = length s * costIns)
   \<and> (length s * costDel \<le> 2 ^ 53 \<longrightarrow>
         levenshtein s [] costIns costRep costDel = length s * costDel)
   \<and> levenshtein [] s 1 1 1 = length s
   \<and> levenshtein s [] 1 1 1 = length s"
  by (cases s) (simp_all add: levenshtein_def)

theorem levenshtein_identical_or_empty_witness:
  "length ''abc'' * (2::nat) \<le> 2 ^ 53
   \<and> levenshtein [] ''abc'' 2 1 1 = 6
   \<and> levenshtein ''abc'' [] 1 1 2 = 6"
proof -
  have h: "length ''abc'' * (2::nat) \<le> 2 ^ 53" by simp
  note t1 = levenshtein_identical_or_empty[of "''abc''" 2 1 1 "''abc''"]
  note t2 = levenshtein_identical_or_empty[of "''abc''" 1 1 2 "''abc''"]
  from t1 h have a: "levenshtein [] ''abc'' 2 1 1 = length ''abc'' * 2" by blast
  from t2 h have b: "levenshtein ''abc'' [] 1 1 2 = length ''abc'' * 2" by blast
  show ?thesis using h a b by simp
qed

text \<open>
  C8: with the default costs (insertion, replacement and deletion all cost 1) the edit
  distance is symmetric.
\<close>

theorem levenshtein_symmetric: "levenshtein a b 1 1 1 = levenshtein b a 1 1 1"
  unfolding levenshtein_editDistance by (rule editDistance_swap)

text \<open>
  C9: \<open>score\<close> writes to no object that exists when it is called, whatever the store and
  the argument: every object of the store is after the call what it was before, so the
  corpus, the configuration and the indexes are not mutated. On a well-formed scorer two
  calls in a row with the same query string both return, the two result lists are equal,
  and they are the value of the function \<open>score\<close> of the scorer (corpus, configuration,
  indexes) and the query string; the scorer is after the two calls what it was before.
\<close>

theorem score_is_pure:
  "take (length \<sigma>) (snd (score_js this searchString \<sigma>)) = \<sigma>
   \<and> (wellFormed \<sigma> this \<longrightarrow>
        (\<exists>r1 \<sigma>1 r2 \<sigma>2.
            score_js this (JString q) \<sigma> = (Inr r1, \<sigma>1)
          \<and> score_js this (JString q) \<sigma>1 = (Inr r2, \<sigma>2)
          \<and> resultsAt \<sigma>1 r1 = score (absScorer \<sigma> this) q
          \<and> resultsAt \<sigma>2 r2 = resultsAt \<sigma>1 r1
          \<and> absScorer \<sigma>2 this = absScorer \<sigma> this))"
proof -
  have frame: "\<And>v \<tau>. take (length \<tau>) (snd (score_js this v \<tau>)) = \<tau>"
    by (rule score_js_unchanged)
  have twice: "\<exists>r1 \<sigma>1 r2 \<sigma>2.
            score_js this (JString q) \<sigma> = (Inr r1, \<sigma>1)
          \<and> score_js this (JString q) \<sigma>1 = (Inr r2, \<sigma>2)
          \<and> resultsAt \<sigma>1 r1 = score (absScorer \<sigma> this) q
          \<and> resultsAt \<sigma>2 r2 = resultsAt \<sigma>1 r1
          \<and> absScorer \<sigma>2 this = absScorer \<sigma> this" if wf: "wellFormed \<sigma> this"
  proof -
    from runs_score_js[OF wf, of q] obtain r1 \<sigma>1
      where c1: "score_js this (JString q) \<sigma> = (Inr r1, \<sigma>1)"
        and v1: "lookup \<sigma>1 r1 = Some (OResults (score (absScorer \<sigma> this) q))"
      by (auto simp: runs_def)
    have ext1: "take (length \<sigma>) \<sigma>1 = \<sigma>" using frame[of \<sigma> "JString q"] c1 by simp
    note wf1 = wellFormed_extends[OF ext1 wf]
    from runs_score_js[OF wf1(1), of q] obtain r2 \<sigma>2
      where c2: "score_js this (JString q) \<sigma>1 = (Inr r2, \<sigma>2)"
        and v2: "lookup \<sigma>2 r2 = Some (OResults (score (absScorer \<sigma>1 this) q))"
      by (auto simp: runs_def)
    have ext2: "take (length \<sigma>1) \<sigma>2 = \<sigma>1" using frame[of \<sigma>1 "JString q"] c2 by simp
    note wf2 = wellFormed_extends[OF ext2 wf1(1)]
    show ?thesis
      using c1 c2 v1 v2 wf1(2) wf2(2) by (simp add: resultsAt_def)
  qed
  show ?thesis using frame[of \<sigma> searchString] twice by blast
qed

text \<open>The sample store: the call with the query \<^verbatim>\<open>fig\<close>.\<close>

theorem score_is_pure_witness:
  "wellFormed sampleStore 9
   \<and> fst (score_js 9 (JString ''fig'') sampleStore) = Inr 27
   \<and> resultsAt (snd (score_js 9 (JString ''fig'') sampleStore)) 27
        = [\<lparr>result_document = 0, result_score = 0\<rparr>, \<lparr>result_document = 2, result_score = \<infinity>\<rparr>]
   \<and> take 25 (snd (score_js 9 (JString ''fig'') sampleStore)) = sampleStore"
proof -
  have wf: "wellFormed sampleStore 9" by code_simp
  have len: "length sampleStore = 25" by code_simp
  have abs: "score (absScorer sampleStore 9) ''fig''
      = [\<lparr>result_document = 0, result_score = 0\<rparr>, \<lparr>result_document = 2, result_score = \<infinity>\<rparr>]"
    by code_simp
  have r: "fst (score_js 9 (JString ''fig'') sampleStore) = Inr 27" by code_simp
  note t = score_is_pure[of sampleStore 9 "JString ''fig''" "''fig''"]
  from t wf obtain r1 \<sigma>1 where c: "score_js 9 (JString ''fig'') sampleStore = (Inr r1, \<sigma>1)"
    and v: "resultsAt \<sigma>1 r1 = score (absScorer sampleStore 9) ''fig''" by blast
  from c r have r1: "r1 = 27" by simp
  from t have fr: "take (length sampleStore) (snd (score_js 9 (JString ''fig'') sampleStore)) = sampleStore"
    by blast
  show ?thesis using wf r c v r1 abs fr len by simp
qed



end
